theory Spec2Isabelle
  imports Main "HOL-Library.Sublist"
begin

section \<open>Python strings\<close>

text \<open>
  A Python \<open>str\<close> is a sequence of Unicode code points, so a string is a list of
  natural numbers here. \<open>ustr\<close> turns an ASCII literal into such a list.
\<close>

type_synonym codepoint = nat
type_synonym str = "codepoint list"

definition ustr :: "string \<Rightarrow> str" where
  "ustr s = map of_char s"

text \<open>
  \<open>str.isspace\<close> on one code point, which is also what \<open>\s\<close> matches in a \<open>str\<close>
  pattern of \<open>re\<close> and what \<open>str.strip()\<close> removes.
\<close>

definition isspace :: "codepoint \<Rightarrow> bool" where
  "isspace c =
     ((9 \<le> c \<and> c \<le> 13) \<or> (28 \<le> c \<and> c \<le> 32) \<or> c = 133 \<or> c = 160 \<or> c = 5760 \<or>
      (8192 \<le> c \<and> c \<le> 8202) \<or> c = 8232 \<or> c = 8233 \<or> c = 8239 \<or> c = 8287 \<or>
      c = 12288)"

definition strip :: "str \<Rightarrow> str" where
  "strip s = rev (dropWhile isspace (rev (dropWhile isspace s)))"

text \<open>
  \<open>text.replace(old, new)\<close>: every non-overlapping occurrence of \<open>old\<close>, found from
  left to right, becomes \<open>new\<close>. With an empty \<open>old\<close> Python puts \<open>new\<close> before every
  character and at the end.
\<close>

function replace :: "str \<Rightarrow> str \<Rightarrow> str \<Rightarrow> str" where
  "replace old new [] = (if old = [] then new else [])"
| "replace old new (c # cs) =
     (if old = [] then new @ c # replace old new cs
      else if prefix old (c # cs) then new @ replace old new (drop (length old) (c # cs))
      else c # replace old new cs)"
  by pat_completeness auto
termination
  by (relation "measure (\<lambda>(old, new, s). length s)") auto

section \<open>The regular expressions of the normalizer\<close>

text \<open>
  A backtracking matcher in continuation style, as \<open>re\<close> runs a pattern: \<open>m_chr P k\<close>
  reads one character of the class \<open>P\<close> and goes on with \<open>k\<close>; \<open>m_star P k\<close> is the
  greedy \<open>P*\<close>, which first tries to read one more character and gives characters
  back only when the rest of the pattern fails. A matcher returns the captured groups
  and the text left after the match.
\<close>

definition m_chr :: "(codepoint \<Rightarrow> bool) \<Rightarrow> (str \<Rightarrow> 'a option) \<Rightarrow> str \<Rightarrow> 'a option" where
  "m_chr P k s = (case s of [] \<Rightarrow> None | c # cs \<Rightarrow> if P c then k cs else None)"

fun m_star :: "(codepoint \<Rightarrow> bool) \<Rightarrow> (str \<Rightarrow> 'a option) \<Rightarrow> str \<Rightarrow> 'a option" where
  "m_star P k [] = k []"
| "m_star P k (c # cs) =
     (if P c then (case m_star P k cs of Some r \<Rightarrow> Some r | None \<Rightarrow> k (c # cs))
      else k (c # cs))"

definition m_plus :: "(codepoint \<Rightarrow> bool) \<Rightarrow> (str \<Rightarrow> 'a option) \<Rightarrow> str \<Rightarrow> 'a option" where
  "m_plus P k = m_chr P (m_star P k)"

text \<open>
  \<open>re.sub(pattern, repl, text)\<close>: at each position from the left the pattern is tried;
  a match is replaced and the scan goes on behind it, otherwise the character is
  copied. A match that reads nothing gets the replacement and the scan moves one
  character on (the three patterns below always read at least one character).
\<close>

function re_sub :: "(str \<Rightarrow> ('g \<times> str) option) \<Rightarrow> ('g \<Rightarrow> str) \<Rightarrow> str \<Rightarrow> str" where
  "re_sub m repl s =
     (case m s of
        Some (g, r) \<Rightarrow>
          if length r < length s then repl g @ re_sub m repl r
          else (case s of [] \<Rightarrow> repl g | c # cs \<Rightarrow> repl g @ c # re_sub m repl cs)
      | None \<Rightarrow> (case s of [] \<Rightarrow> [] | c # cs \<Rightarrow> c # re_sub m repl cs))"
  by pat_completeness auto
termination
  by (relation "measure (\<lambda>(m, repl, s). length s)") auto

definition is_hspace :: "codepoint \<Rightarrow> bool" where
  "is_hspace c = (c = 32 \<or> c = 9)"

definition is_nl :: "codepoint \<Rightarrow> bool" where
  "is_nl c = (c = 10)"

definition is_dot :: "codepoint \<Rightarrow> bool" where
  "is_dot c = (c = 46)"

text \<open>The pattern \<open>[ \t]+\<close>.\<close>

definition re_hspace :: "str \<Rightarrow> (unit \<times> str) option" where
  "re_hspace = m_plus is_hspace (\<lambda>r. Some ((), r))"

text \<open>The pattern \<open>\n\s*\n\s*\n\<close>.\<close>

definition re_blank :: "str \<Rightarrow> (unit \<times> str) option" where
  "re_blank =
     m_chr is_nl (m_star isspace (m_chr is_nl (m_star isspace (m_chr is_nl (\<lambda>r. Some ((), r))))))"

text \<open>
  The pattern \<open>(\d+)\.(\d+)\<close> with its two groups. What \<open>\d\<close> matches is the table of
  Unicode decimal digits of the Python runtime, taken as the parameter \<open>isdigit\<close>.
\<close>

definition re_decimal :: "(codepoint \<Rightarrow> bool) \<Rightarrow> str \<Rightarrow> ((str \<times> str) \<times> str) option" where
  "re_decimal isdigit s =
     m_plus isdigit
       (\<lambda>r1. m_chr is_dot
          (\<lambda>r2. m_plus isdigit
             (\<lambda>r3. Some ((take (length s - length r1) s, take (length r2 - length r3) r2), r3))
             r2)
          r1)
       s"

section \<open>The text normalizer\<close>

text \<open>The table of OCR misreadings, in the order the dictionary is written.\<close>

definition replacements :: "(str \<times> str) list" where
  "replacements =
     [(ustr ''Lable'', ustr ''Label''),
      (ustr ''Chola'', ustr ''Chola''),
      (ustr ''+|bCAmt:+/2'' @ [162], ustr ''SubTotal:''),
      (ustr ''Phn:'', ustr ''Phone:''),
      (ustr ''Qty:'', ustr ''Quantity:''),
      (ustr ''Amt:'', ustr ''Amount:''),
      (ustr ''Cewkehy'', ustr ''Company''),
      (ustr ''Srey'', ustr ''Store'')]"

text \<open>\<open>clean_ocr_text\<close> at a string argument.\<close>

definition clean_str :: "(codepoint \<Rightarrow> bool) \<Rightarrow> str \<Rightarrow> str" where
  "clean_str isdigit text =
     (if text = [] then text
      else
        let text = foldl (\<lambda>t (old, new). replace old new t) text replacements;
            text = re_sub re_hspace (\<lambda>_. ustr '' '') text;
            text = re_sub re_blank (\<lambda>_. [10, 10]) text;
            text = re_sub (re_decimal isdigit) (\<lambda>(g1, g2). g1 @ ustr ''.'' @ g2) text
        in strip text)"

text \<open>
  \<open>clean_ocr_text\<close> itself: the parameter is untyped in the source, and \<open>None\<close> is
  falsy like the empty string, so it is handed back.
\<close>

definition clean_ocr_text :: "(codepoint \<Rightarrow> bool) \<Rightarrow> str option \<Rightarrow> str option" where
  "clean_ocr_text isdigit text =
     (case text of None \<Rightarrow> None | Some t \<Rightarrow> Some (clean_str isdigit t))"

section \<open>The request handler\<close>

text \<open>
  The handler talks to four collaborators that are not part of the repository: the PDF
  rasterizer, the image decoder, the OCR engine and the generative model, and it parses
  the model's answer with the JSON parser of the runtime. They are the fields of an
  environment. A call that raises returns \<open>Inl\<close> with \<open>str(e)\<close> of its exception.
\<close>

type_synonym bytes = "nat list"

datatype json_error = JSONDecodeError str | OtherError str

record ('img, 'j) env =
  convert_from_bytes :: "bytes \<Rightarrow> str + 'img list"
  image_open :: "bytes \<Rightarrow> str + 'img"
  image_to_string :: "str \<Rightarrow> 'img \<Rightarrow> str + str"
  generate_content :: "str \<Rightarrow> str + str"
  json_loads :: "str \<Rightarrow> json_error + 'j"
  isdigit :: "codepoint \<Rightarrow> bool"

text \<open>The calls made to the collaborators, in the order they happen.\<close>

datatype 'img event =
    ConvertFromBytes bytes
  | ImageOpen bytes
  | ImageToString str 'img
  | GenerateContent str

text \<open>
  An uploaded file. \<open>filename\<close> and \<open>content_type\<close> are optional in the framework;
  \<open>contents\<close> is what \<open>await file.read()\<close> returns.
\<close>

record upload_file =
  filename :: "str option"
  content_type :: "str option"
  contents :: bytes

datatype http_exception = HTTPException (status_code: nat) (detail: str)

datatype 'j response = Data 'j

text \<open>An optional string inside an f-string.\<close>

definition fmt :: "str option \<Rightarrow> str" where
  "fmt x = (case x of None \<Rightarrow> ustr ''None'' | Some s \<Rightarrow> s)"

text \<open>A positive integer inside an f-string: its decimal digits.\<close>

fun str_nat :: "nat \<Rightarrow> str" where
  "str_nat n = (if n < 10 then [48 + n] else str_nat (n div 10) @ [48 + n mod 10])"

text \<open>
  \<open>max([t] + ts, key=len)\<close>: the first of the longest texts, since a later one
  takes over only when it is strictly longer.
\<close>

fun max_by_len :: "str \<Rightarrow> str list \<Rightarrow> str" where
  "max_by_len best [] = best"
| "max_by_len best (t # ts) = max_by_len (if length best < length t then t else best) ts"

text \<open>
  One call to a collaborator: the call is recorded, an exception ends the computation
  with its message, a result is handed on.
\<close>

definition call ::
  "'img event \<Rightarrow> 'e + 'a \<Rightarrow> ('a \<Rightarrow> 'img event list \<Rightarrow> ('e + 'b) \<times> 'img event list) \<Rightarrow>
   'img event list \<Rightarrow> ('e + 'b) \<times> 'img event list" where
  "call ev res k log = (case res of Inl e \<Rightarrow> (Inl e, log @ [ev]) | Inr v \<Rightarrow> k v (log @ [ev]))"

definition allowed_types :: "str option list" where
  "allowed_types = [Some (ustr ''image/jpeg''), Some (ustr ''image/png''), Some (ustr ''application/pdf'')]"

definition custom_config :: str where
  "custom_config = ustr ''--oem 3 --psm 6 -c tessedit_char_whitelist=0123456789ABCDEFGHIJKLMNOPQRSTUVWXYZabcdefghijklmnopqrstuvwxyz .,/-:()+''"

definition config2 :: str where
  "config2 = ustr ''--oem 3 --psm 4''"

definition config3 :: str where
  "config3 = ustr ''--oem 3 --psm 3''"

definition start_banner :: "nat \<Rightarrow> str" where
  "start_banner bill_counter =
     ([10, 10] @ replicate 60 61 @ [10]) @
     (ustr ''BILL NUMBER '' @ str_nat bill_counter @ ustr '' - START'' @ [10]) @
     (replicate 60 61 @ [10, 10])"

definition end_banner :: "nat \<Rightarrow> str" where
  "end_banner bill_counter =
     ([10] @ replicate 60 61 @ [10]) @
     (ustr ''BILL NUMBER '' @ str_nat bill_counter @ ustr '' - END'' @ [10]) @
     (replicate 60 61 @ [10, 10])"

text \<open>The loop over the pages of a PDF: one OCR call per page, with the default configuration.\<close>

fun ocr_pages ::
  "('img, 'j) env \<Rightarrow> 'img list \<Rightarrow> str \<Rightarrow> 'img event list \<Rightarrow> (str + str) \<times> 'img event list" where
  "ocr_pages E [] all_text log = (Inr all_text, log)"
| "ocr_pages E (page # pages) all_text log =
     call (ImageToString [] page) (image_to_string E [] page)
       (\<lambda>text. ocr_pages E pages (all_text @ text @ [10])) log"

text \<open>
  The part of the \<open>try\<close> block that may raise: the text of one file is added to
  \<open>all_text\<close>.
\<close>

definition extract_file ::
  "('img, 'j) env \<Rightarrow> upload_file \<Rightarrow> str \<Rightarrow> 'img event list \<Rightarrow> (str + str) \<times> 'img event list" where
  "extract_file E file all_text log =
     (if content_type file = Some (ustr ''application/pdf'') then
        call (ConvertFromBytes (contents file)) (convert_from_bytes E (contents file))
          (\<lambda>pages. ocr_pages E pages all_text) log
      else
        call (ImageOpen (contents file)) (image_open E (contents file))
          (\<lambda>img.
             call (ImageToString custom_config img) (image_to_string E custom_config img)
               (\<lambda>text1.
                  call (ImageToString config2 img) (image_to_string E config2 img)
                    (\<lambda>text2.
                       call (ImageToString config3 img) (image_to_string E config3 img)
                         (\<lambda>text3 log.
                            let text = max_by_len text1 [text2, text3]
                            in (Inr (all_text @ text @ [10]), log)))))
          log)"

text \<open>
  The loop over the uploaded files, with its two variables \<open>all_text\<close> and
  \<open>bill_counter\<close>. The first exception leaves the loop.
\<close>

fun process_files ::
  "('img, 'j) env \<Rightarrow> upload_file list \<Rightarrow> str \<Rightarrow> nat \<Rightarrow> 'img event list \<Rightarrow>
   (http_exception + str \<times> nat) \<times> 'img event list" where
  "process_files E [] all_text bill_counter log = (Inr (all_text, bill_counter), log)"
| "process_files E (file # files) all_text bill_counter log =
     (if content_type file \<notin> set allowed_types then
        (Inl (HTTPException 400 (ustr ''Unsupported file type: '' @ fmt (content_type file))), log)
      else
        case extract_file E file (all_text @ start_banner bill_counter) log of
          (Inl e, log') \<Rightarrow>
            (Inl (HTTPException 500
                   (ustr ''Error processing file '' @ fmt (filename file) @ ustr '': '' @ e)), log')
        | (Inr all_text', log') \<Rightarrow>
            process_files E files (all_text' @ end_banner bill_counter) (bill_counter + 1) log')"

text \<open>
  The instruction text for the model, line by line as the source has it: the literal
  starts with a newline, each line is followed by one, and the last line is the
  placeholder that the normalized text replaces.
\<close>

definition prompt_template :: str where
  \<open>prompt_template =
     concat (map (\<lambda>line. 10 # ustr line)
     [''You are an intelligent document processor that extracts bill/invoice data from OCR text into a unified table.'',
      '''',
      ''The text contains MULTIPLE DIFFERENT BILLS/INVOICES separated by clear dividers.'',
      '''',
      ''BILL SEPARATION MARKERS:'',
      ''Each bill is clearly marked with:'',
      ''- "BILL NUMBER X - START" at the beginning'',
      ''- "BILL NUMBER X - END" at the end'',
      ''- "=" dividers around each bill'',
      ''- "SOURCE FILE: filename" to identify the original image'',
      '''',
      ''CRITICAL INSTRUCTIONS FOR MULTIPLE BILLS:'',
      ''1. PROCESS each bill section separately (between START and END markers)'',
      ''2. Each bill has its own date - FIND AND USE the correct date for each bill's items'',
      ''3. Each bill may have different shop names - apply the correct shop name to its items'',
      ''4. DO NOT mix dates between different bills'',
      ''5. Process each bill individually, then combine all items into one JSON array'',
      '''',
      ''IMPORTANT DATE HANDLING:'',
      ''- IDENTIFY each bill's individual date within its START/END section'',
      ''- Look for dates like: 27-Jan-2012, 12/03/2024, 15-Mar-2024, 12:18 PM 27-Jan-2012'',
      ''- Convert each date to DD/MM/YYYY format (example: "27-Jan-2012" becomes "27/01/2012")'',
      ''- Apply the CORRECT date to ALL items from that specific bill only'',
      ''- Handle various date formats: 02/03/2024, 02-March-2024, 2024-03-02, 02 Mar 2024, etc.'',
      ''- If a bill has no clear date, use current date (16/10/2025)'',
      '''',
      ''BILL PROCESSING EXAMPLE:'',
      ''If you see:'',
      ''```'',
      ''=== BILL NUMBER 1 - START ==='',
      ''... 27-Jan-2012 ... Restaurant A ... Rice, Oil ...'',
      ''=== BILL NUMBER 1 - END ==='',
      '''',
      ''=== BILL NUMBER 2 - START ===  '',
      ''... 15-Mar-2024 ... Grocery B ... Milk, Bread ...'',
      ''=== BILL NUMBER 2 - END ==='',
      ''```'',
      '''',
      ''Process as:'',
      ''- Bill 1 items get date "27/01/2012" and shop "Restaurant A"'',
      ''- Bill 2 items get date "15/03/2024" and shop "Grocery B"'',
      '''',
      ''PROCESSING STEPS:'',
      ''1. Split the text into separate bills'',
      ''2. For each bill: extract date, shop name, and all items'',
      ''3. Apply the bill's date and shop name to all its items'',
      ''4. Combine all items from all bills into one JSON array'',
      '''',
      ''Example with multiple bills:'',
      ''If you find:'',
      ''- Bill 1 (Date: 27/01/2012, Shop: Restaurant A) with items: Rice, Oil'',
      ''- Bill 2 (Date: 15/03/2024, Shop: Grocery B) with items: Milk, Bread'',
      ''- Bill 3 (Date: 20/05/2024, Shop: Store C) with items: Tea, Sugar'',
      '''',
      ''Output should be:'',
      ''['',
      ''  {"date": "27/01/2012", "shop_name": "Restaurant A", "item_name": "Rice", "quantity": 1, "unit_price": 50, "total_amount": 50},'',
      ''  {"date": "27/01/2012", "shop_name": "Restaurant A", "item_name": "Oil", "quantity": 1, "unit_price": 150, "total_amount": 150},'',
      ''  {"date": "15/03/2024", "shop_name": "Grocery B", "item_name": "Milk", "quantity": 2, "unit_price": 40, "total_amount": 80},'',
      ''  {"date": "15/03/2024", "shop_name": "Grocery B", "item_name": "Bread", "quantity": 1, "unit_price": 25, "total_amount": 25},'',
      ''  {"date": "20/05/2024", "shop_name": "Store C", "item_name": "Tea", "quantity": 1, "unit_price": 30, "total_amount": 30},'',
      ''  {"date": "20/05/2024", "shop_name": "Store C", "item_name": "Sugar", "quantity": 1, "unit_price": 45, "total_amount": 45}'',
      '']'',
      '''',
      ''Rules:'',
      ''- Use field names: date, shop_name, item_name, quantity, unit_price, total_amount'',
      ''- EVERY item must have the correct date from its specific bill'',
      ''- Clean up item names and fix obvious OCR errors'',
      ''- Calculate missing quantities or totals if needed'',
      ''- Return only valid JSON array, no explanations'',
      '''',
      ''Text to process:'',
      ''__ALL_TEXT_PLACEHOLDER__'']) @ [10]\<close>

definition build_prompt :: "str \<Rightarrow> str" where
  "build_prompt cleaned_text = replace (ustr ''__ALL_TEXT_PLACEHOLDER__'') cleaned_text prompt_template"

text \<open>The answer of the model without its code fence.\<close>

definition strip_fences :: "str \<Rightarrow> str" where
  "strip_fences text =
     (let raw_text = strip text;
          raw_text = (if prefix (ustr ''```json'') raw_text then drop 7 raw_text else raw_text);
          raw_text = (if suffix (ustr ''```'') raw_text then take (length raw_text - 3) raw_text
                      else raw_text)
      in strip raw_text)"

text \<open>The second \<open>try\<close> block: the model is asked and its answer parsed.\<close>

definition ask_model ::
  "('img, 'j) env \<Rightarrow> str \<Rightarrow> 'img event list \<Rightarrow> (http_exception + 'j response) \<times> 'img event list" where
  "ask_model E prompt log =
     (case generate_content E prompt of
        Inl e \<Rightarrow>
          (Inl (HTTPException 500 (ustr ''Error processing with Gemini: '' @ e)),
           log @ [GenerateContent prompt])
      | Inr text \<Rightarrow>
          let raw_text = strip_fences text in
          (case json_loads E raw_text of
             Inr structured_data \<Rightarrow> Inr (Data structured_data)
           | Inl (JSONDecodeError e) \<Rightarrow>
               Inl (HTTPException 500
                     (ustr ''Invalid JSON from Gemini: '' @ take 200 raw_text @
                      ustr ''... Error: '' @ e))
           | Inl (OtherError e) \<Rightarrow>
               Inl (HTTPException 500 (ustr ''Error processing with Gemini: '' @ e)),
           log @ [GenerateContent prompt]))"

definition process_images ::
  "('img, 'j) env \<Rightarrow> upload_file list \<Rightarrow> (http_exception + 'j response) \<times> 'img event list" where
  "process_images E files =
     (if files = [] then (Inl (HTTPException 400 (ustr ''No files provided'')), [])
      else
        case process_files E files [] 1 [] of
          (Inl err, log) \<Rightarrow> (Inl err, log)
        | (Inr (all_text, bill_counter), log) \<Rightarrow>
            if strip all_text = [] then
              (Inl (HTTPException 400 (ustr ''No text extracted from images'')), log)
            else
              let cleaned_text = clean_str (isdigit E) all_text
              in ask_model E (build_prompt cleaned_text) log)"

section \<open>Notions used in the proofs\<close>

text \<open>The first two substitutions of the normalizer, and the loop over the table.\<close>

definition sub_hspace :: "str \<Rightarrow> str" where
  "sub_hspace = re_sub re_hspace (\<lambda>_. ustr '' '')"

definition sub_blank :: "str \<Rightarrow> str" where
  "sub_blank = re_sub re_blank (\<lambda>_. [10, 10])"

definition fix_misreads :: "str \<Rightarrow> str" where
  "fix_misreads t = foldl (\<lambda>t (old, new). replace old new t) t replacements"

text \<open>The number of newlines in the whitespace a text starts with.\<close>

fun nlc :: "str \<Rightarrow> nat" where
  "nlc [] = 0"
| "nlc (c # cs) = (if isspace c then (if c = 10 then 1 else 0) + nlc cs else 0)"

text \<open>The continuations of \<open>re_blank\<close>, from the innermost out.\<close>

definition k3 :: "str \<Rightarrow> (unit \<times> str) option" where
  "k3 = m_chr is_nl (\<lambda>r. Some ((), r))"

definition k2 :: "str \<Rightarrow> (unit \<times> str) option" where
  "k2 = m_star isspace k3"

definition k1 :: "str \<Rightarrow> (unit \<times> str) option" where
  "k1 = m_chr is_nl k2"

definition k0 :: "str \<Rightarrow> (unit \<times> str) option" where
  "k0 = m_star isspace k1"

text \<open>A text in which \<open>re_blank\<close> matches nowhere.\<close>

fun bfree :: "str \<Rightarrow> bool" where
  "bfree [] = True"
| "bfree (c # cs) = (re_blank (c # cs) = None \<and> bfree cs)"

text \<open>
  A text without tabs in which every space stands alone; \<open>hd_hs\<close> says that a text
  starts with a space or a tab.
\<close>

fun hd_hs :: "str \<Rightarrow> bool" where
  "hd_hs [] = False"
| "hd_hs (c # cs) = is_hspace c"

fun hclean :: "str \<Rightarrow> bool" where
  "hclean [] = True"
| "hclean (c # cs) = ((if is_hspace c then c = 32 \<and> \<not> hd_hs cs else True) \<and> hclean cs)"

text \<open>
  \<open>apart a q\<close>: no occurrence of \<open>a\<close> can begin inside \<open>q\<close>, whatever follows \<open>q\<close>,
  because \<open>a\<close> and each non-empty end piece of \<open>q\<close> differ at some position.
\<close>

fun apart :: "str \<Rightarrow> str \<Rightarrow> bool" where
  "apart a [] = True"
| "apart a (c # cs) = (\<not> prefix a (c # cs) \<and> \<not> prefix (c # cs) a \<and> apart a cs)"

text \<open>
  A text that holds none of the misreadings the table changes (\<open>Chola\<close> is replaced by
  itself, and the third entry contains \<open>Amt:\<close>), and a text one pass of the normalizer
  leaves alone.
\<close>

definition pfree :: "str \<Rightarrow> bool" where
  "pfree t \<longleftrightarrow>
     \<not> sublist (ustr ''Lable'') t \<and> \<not> sublist (ustr ''Phn:'') t \<and> \<not> sublist (ustr ''Qty:'') t \<and>
     \<not> sublist (ustr ''Amt:'') t \<and> \<not> sublist (ustr ''Cewkehy'') t \<and> \<not> sublist (ustr ''Srey'') t"

definition tidy :: "str \<Rightarrow> bool" where
  "tidy t \<longleftrightarrow> pfree t \<and> hclean t \<and> bfree t \<and>
     takeWhile isspace t = [] \<and> takeWhile isspace (rev t) = []"

text \<open>
  The framed text as the specification describes it: for each file in upload order a
  START banner, the text extracted from the file and the END banner with the same index,
  the indices counting up. \<open>body_of\<close> is the text that extraction adds for one file.
\<close>

definition body_of :: "('img, 'j) env \<Rightarrow> upload_file \<Rightarrow> str" where
  "body_of E file = (case fst (extract_file E file [] []) of Inl e \<Rightarrow> [] | Inr b \<Rightarrow> b)"

fun framed :: "nat \<Rightarrow> str list \<Rightarrow> str" where
  "framed n [] = []"
| "framed n (b # bs) = start_banner n @ b @ end_banner n @ framed (n + 1) bs"

text \<open>The number a string of decimal digits stands for.\<close>

fun val_digits :: "str \<Rightarrow> nat" where
  "val_digits ds = foldl (\<lambda>a c. 10 * a + (c - 48)) 0 ds"





text \<open>
  A sample environment and sample uploads for the concrete runs below: the image decoder
  refuses empty content, OCR returns \<open>ocr_text\<close> (twice over under the second
  configuration), the model answers \<open>answer\<close>, and the JSON parser knows the one
  document \<open>[1]\<close>.
\<close>

definition sample_env :: "str \<Rightarrow> str \<Rightarrow> (unit, nat) env" where
  "sample_env ocr_text answer =
     \<lparr>convert_from_bytes = (\<lambda>b. Inr [(), ()]),
      image_open = (\<lambda>b. if b = [] then Inl (ustr ''cannot identify image file'') else Inr ()),
      image_to_string = (\<lambda>config img. Inr (if config = config2 then ocr_text @ ocr_text else ocr_text)),
      generate_content = (\<lambda>prompt. Inr answer),
      json_loads = (\<lambda>s. if s = ustr ''[1]'' then Inr 1 else Inl (JSONDecodeError (ustr ''Expecting value''))),
      isdigit = (\<lambda>c. 48 \<le> c \<and> c \<le> 57)\<rparr>"

definition png_file :: upload_file where
  "png_file = \<lparr>filename = Some (ustr ''a.png''), content_type = Some (ustr ''image/png''), contents = [137, 80]\<rparr>"

definition broken_png_file :: upload_file where
  "broken_png_file = \<lparr>filename = Some (ustr ''b.png''), content_type = Some (ustr ''image/png''), contents = []\<rparr>"

definition txt_file :: upload_file where
  "txt_file = \<lparr>filename = Some (ustr ''c.txt''), content_type = Some (ustr ''text/plain''), contents = [104, 105]\<rparr>"

section \<open>Properties of the normalizer\<close>

subsection \<open>The pattern for spaces and tabs\<close>

lemma isspace_simps [simp]: "isspace 10" "isspace 32" "isspace 9"
  by (simp_all add: isspace_def)

lemma m_star_total: "m_star P (\<lambda>r. Some (f r)) s = Some (f (dropWhile P s))"
  by (induction s) auto

lemma re_hspace_Nil [simp]: "re_hspace [] = None"
  by (simp add: re_hspace_def m_plus_def m_chr_def)

lemma re_hspace_Cons [simp]:
  "re_hspace (c # cs) = (if is_hspace c then Some ((), dropWhile is_hspace cs) else None)"
  by (simp add: re_hspace_def m_plus_def m_chr_def m_star_total)

lemma length_dropWhile_less: "length (dropWhile P cs) < Suc (length cs)"
  by (simp add: length_dropWhile_le less_Suc_eq_le)

lemma sub_hspace_Nil [simp]: "sub_hspace [] = []"
  by (simp add: sub_hspace_def)

lemma sub_hspace_Cons [simp]:
  "sub_hspace (c # cs) =
     (if is_hspace c then 32 # sub_hspace (dropWhile is_hspace cs) else c # sub_hspace cs)"
  by (simp add: sub_hspace_def ustr_def length_dropWhile_less)

declare re_sub.simps [simp del]

subsection \<open>The pattern for blank lines: where it matches and what it leaves\<close>

lemma re_blank_k0: "re_blank = m_chr is_nl k0"
  by (simp add: re_blank_def k0_def k1_def k2_def k3_def)

lemma k3_simps [simp]: "k3 [] = None" "k3 (c # cs) = (if c = 10 then Some ((), cs) else None)"
  by (simp_all add: k3_def m_chr_def is_nl_def)

lemma k2_simps [simp]: "k2 [] = None"
  "k2 (c # cs) = (if isspace c then (case k2 cs of Some r \<Rightarrow> Some r | None \<Rightarrow> k3 (c # cs)) else None)"
  by (auto simp add: k2_def)

lemma k2_None: "k2 s = None \<longleftrightarrow> nlc s = 0"
  by (induction s) (auto split: option.splits)

lemma k2_Some: "k2 s = Some (u, r) \<Longrightarrow> nlc r = 0 \<and> (\<exists>w. s = w @ 10 # r)"
proof (induction s)
  case Nil
  then show ?case by simp
next
  case (Cons c cs)
  show ?case
  proof (cases "k2 cs")
    case None
    with Cons.prems have "c = 10" "r = cs" by (auto split: if_splits)
    moreover from None have "nlc cs = 0" by (simp add: k2_None)
    ultimately show ?thesis by auto
  next
    case (Some a)
    with Cons.prems have "k2 cs = Some (u, r)" by (auto split: if_splits)
    from Cons.IH [OF this] obtain w where "nlc r = 0" "cs = w @ 10 # r" by blast
    then have "c # cs = (c # w) @ 10 # r" by simp
    with \<open>nlc r = 0\<close> show ?thesis by blast
  qed
qed

lemma k1_simps [simp]: "k1 [] = None" "k1 (c # cs) = (if c = 10 then k2 cs else None)"
  by (simp_all add: k1_def m_chr_def is_nl_def)

lemma k0_simps [simp]: "k0 [] = None"
  "k0 (c # cs) = (if isspace c then (case k0 cs of Some r \<Rightarrow> Some r | None \<Rightarrow> k1 (c # cs)) else None)"
  by (auto simp add: k0_def)

lemma k0_None: "k0 s = None \<longleftrightarrow> nlc s \<le> 1"
  by (induction s) (auto split: option.splits simp: k2_None)

lemma k0_Some: "k0 s = Some (u, r) \<Longrightarrow> nlc r = 0 \<and> (\<exists>w. s = w @ 10 # r)"
proof (induction s)
  case Nil
  then show ?case by simp
next
  case (Cons c cs)
  show ?case
  proof (cases "k0 cs")
    case None
    with Cons.prems have "c = 10" "k2 cs = Some (u, r)" by (auto split: if_splits)
    from k2_Some [OF this(2)] obtain w where "nlc r = 0" "cs = w @ 10 # r" by blast
    then have "c # cs = (c # w) @ 10 # r" by simp
    with \<open>nlc r = 0\<close> show ?thesis by blast
  next
    case (Some a)
    with Cons.prems have "k0 cs = Some (u, r)" by (auto split: if_splits)
    from Cons.IH [OF this] obtain w where "nlc r = 0" "cs = w @ 10 # r" by blast
    then have "c # cs = (c # w) @ 10 # r" by simp
    with \<open>nlc r = 0\<close> show ?thesis by blast
  qed
qed

lemma re_blank_simps [simp]: "re_blank [] = None"
  "re_blank (c # cs) = (if c = 10 then k0 cs else None)"
  by (simp_all add: re_blank_k0 m_chr_def is_nl_def)

lemma re_blank_None: "re_blank (c # cs) = None \<longleftrightarrow> c \<noteq> 10 \<or> nlc cs \<le> 1"
  by (simp add: k0_None)

lemma re_blank_Cons_Some: "re_blank (c # cs) = Some (u, r) \<Longrightarrow> c = 10 \<and> 2 \<le> nlc cs"
proof -
  assume a: "re_blank (c # cs) = Some (u, r)"
  then have "re_blank (c # cs) \<noteq> None" by simp
  then show ?thesis unfolding re_blank_None by simp
qed

lemma re_blank_Some:
  assumes "re_blank s = Some (u, r)"
  shows "nlc r = 0 \<and> (\<exists>w. s = 10 # w @ 10 # r)"
proof (cases s)
  case Nil
  with assms show ?thesis by simp
next
  case (Cons c cs)
  with assms have "c = 10" "k0 cs = Some (u, r)" by (auto split: if_splits)
  with k0_Some [OF this(2)] Cons show ?thesis by auto
qed

declare k0_simps [simp del] k2_simps [simp del] k1_simps [simp del] k3_simps [simp del]

declare re_blank_simps(2) [simp del]

subsection \<open>Substituting blank lines\<close>

lemma sub_blank_Nil [simp]: "sub_blank [] = []"
  by (simp add: sub_blank_def re_sub.simps)

lemma sub_blank_match: "re_blank s = Some (u, r) \<Longrightarrow> sub_blank s = 10 # 10 # sub_blank r"
proof -
  assume a: "re_blank s = Some (u, r)"
  then obtain w where "s = 10 # w @ 10 # r" using re_blank_Some by blast
  then have "length r < length s" by simp
  with a show ?thesis unfolding sub_blank_def by (subst re_sub.simps) simp
qed

lemma sub_blank_nomatch: "re_blank (c # cs) = None \<Longrightarrow> sub_blank (c # cs) = c # sub_blank cs"
  unfolding sub_blank_def by (subst re_sub.simps) simp

lemma sub_blank_induct [case_names Nil match nomatch]:
  assumes "P []"
    and "\<And>s u r w. re_blank s = Some (u, r) \<Longrightarrow> s = 10 # w @ 10 # r \<Longrightarrow> nlc r = 0 \<Longrightarrow> P r \<Longrightarrow> P s"
    and "\<And>c cs. re_blank (c # cs) = None \<Longrightarrow> P cs \<Longrightarrow> P (c # cs)"
  shows "P s"
proof (induction s rule: length_induct)
  case (1 s)
  show ?case
  proof (cases "re_blank s")
    case None
    show ?thesis
    proof (cases s)
      case Nil
      then show ?thesis using assms(1) by simp
    next
      case (Cons c cs)
      with None 1 assms(3) show ?thesis by simp
    qed
  next
    case (Some a)
    obtain u r where a: "a = (u, r)" by (cases a)
    from Some a re_blank_Some obtain w where w: "nlc r = 0" "s = 10 # w @ 10 # r" by blast
    then have "length r < length s" by simp
    with 1 have "P r" by blast
    with assms(2) Some a w show ?thesis by blast
  qed
qed

lemma nlc_sub_blank: "nlc (sub_blank s) = min 2 (nlc s)"
proof (induction s rule: sub_blank_induct)
  case Nil
  then show ?case by simp
next
  case (match s u r w)
  from match(1) have "nlc s \<ge> 3"
  proof (cases s)
    case Nil
    with match(1) show ?thesis by simp
  next
    case (Cons c cs)
    with match(1) re_blank_Cons_Some show ?thesis by fastforce
  qed
  with match show ?case by (simp add: sub_blank_match)
next
  case (nomatch c cs)
  from nomatch(1) have "c \<noteq> 10 \<or> nlc cs \<le> 1" by (simp only: re_blank_None)
  with nomatch show ?case by (auto simp: sub_blank_nomatch)
qed

lemma bfree_sub_blank: "bfree (sub_blank s)"
proof (induction s rule: sub_blank_induct)
  case Nil
  then show ?case by simp
next
  case (match s u r w)
  have "re_blank (10 # 10 # sub_blank r) = None" "re_blank (10 # sub_blank r) = None"
    using match(3) by (simp_all add: re_blank_None nlc_sub_blank)
  with match show ?case by (simp add: sub_blank_match)
next
  case (nomatch c cs)
  from nomatch(1) have "c \<noteq> 10 \<or> nlc cs \<le> 1" by (simp only: re_blank_None)
  then have "re_blank (c # sub_blank cs) = None"
    by (auto simp add: re_blank_None nlc_sub_blank)
  with nomatch show ?case by (simp add: sub_blank_nomatch)
qed

lemma sub_blank_id: "bfree s \<Longrightarrow> sub_blank s = s"
  by (induction s) (simp_all add: sub_blank_nomatch)

lemma bfree_append_right: "bfree (xs @ ys) \<Longrightarrow> bfree ys"
  by (induction xs) simp_all

lemma nlc_append_le: "nlc xs \<le> nlc (xs @ ys)"
  by (induction xs) simp_all

lemma bfree_append_left: "bfree (xs @ ys) \<Longrightarrow> bfree xs"
proof (induction xs)
  case Nil
  then show ?case by simp
next
  case (Cons c cs)
  then have "bfree cs" by simp
  moreover have "re_blank (c # cs) = None"
  proof (cases "c = 10")
    case True
    with Cons.prems have "nlc (cs @ ys) \<le> 1" by (simp add: re_blank_None)
    with nlc_append_le [of cs ys] have "nlc cs \<le> 1" by linarith
    with True show ?thesis by (simp add: re_blank_None)
  next
    case False
    then show ?thesis by (simp add: re_blank_None)
  qed
  ultimately show ?case by simp
qed

subsection \<open>Stripping keeps the properties of the inner text\<close>

lemma strip_decomp: "\<exists>u v. s = u @ strip s @ v"
proof -
  let ?d = "dropWhile isspace s"
  have 1: "s = takeWhile isspace s @ ?d" by simp
  have "rev (dropWhile isspace (rev ?d)) @ rev (takeWhile isspace (rev ?d)) =
        rev (takeWhile isspace (rev ?d) @ dropWhile isspace (rev ?d))"
    by (simp only: rev_append)
  also have "\<dots> = ?d" by (simp only: takeWhile_dropWhile_id rev_rev_ident)
  finally have 2: "?d = strip s @ rev (takeWhile isspace (rev ?d))"
    by (simp only: strip_def)
  from 1 2 have "s = takeWhile isspace s @ strip s @ rev (takeWhile isspace (rev ?d))"
    by simp
  then show ?thesis by blast
qed

lemma bfree_strip: "bfree s \<Longrightarrow> bfree (strip s)"
proof -
  assume a: "bfree s"
  obtain u v where "s = u @ strip s @ v" using strip_decomp by blast
  with a have "bfree (u @ strip s @ v)" by simp
  then show ?thesis using bfree_append_left bfree_append_right by blast
qed

lemma three_newlines_match: "prefix [10, 10, 10] s \<Longrightarrow> re_blank s \<noteq> None"
proof -
  assume "prefix [10, 10, 10] s"
  then obtain zs where s: "s = 10 # 10 # 10 # zs" by (auto simp: prefix_def)
  have "\<not> (10 \<noteq> (10::nat) \<or> nlc (10 # 10 # zs) \<le> 1)" by simp
  then show ?thesis unfolding s re_blank_None .
qed

lemma bfree_no_three_newlines: "bfree s \<Longrightarrow> \<not> sublist [10, 10, 10] s"
proof (induction s)
  case Nil
  then show ?case by simp
next
  case (Cons c cs)
  then have "\<not> prefix [10, 10, 10] (c # cs)" using three_newlines_match [of "c # cs"] by auto
  with Cons show ?case by (simp add: sublist_Cons_right)
qed

subsection \<open>Texts without tabs and double spaces\<close>

lemma hd_hs_dropWhile [simp]: "\<not> hd_hs (dropWhile is_hspace s)"
  by (induction s) simp_all

lemma dropWhile_hs_id: "\<not> hd_hs s \<Longrightarrow> dropWhile is_hspace s = s"
  by (cases s) simp_all

lemma is_hspace_32 [simp]: "is_hspace 32" "is_hspace 9" "\<not> is_hspace 10"
  by (simp_all add: is_hspace_def)

lemma hd_hs_sub_hspace [simp]: "hd_hs (sub_hspace s) = hd_hs s"
  by (cases s) simp_all

lemma sub_hspace_induct [case_names Nil hs other]:
  assumes "P []"
    and "\<And>c cs. is_hspace c \<Longrightarrow> P (dropWhile is_hspace cs) \<Longrightarrow> P (c # cs)"
    and "\<And>c cs. \<not> is_hspace c \<Longrightarrow> P cs \<Longrightarrow> P (c # cs)"
  shows "P s"
proof (induction s rule: length_induct)
  case (1 s)
  show ?case
  proof (cases s)
    case Nil
    then show ?thesis using assms(1) by simp
  next
    case (Cons c cs)
    have "length (dropWhile is_hspace cs) < length s" using Cons
      by (simp add: length_dropWhile_less)
    with 1 have "P (dropWhile is_hspace cs)" by blast
    moreover from 1 Cons have "P cs" by simp
    ultimately show ?thesis using Cons assms(2,3) by (cases "is_hspace c") auto
  qed
qed

lemma hclean_sub_hspace: "hclean (sub_hspace s)"
  by (induction s rule: sub_hspace_induct) simp_all

lemma sub_hspace_id: "hclean s \<Longrightarrow> sub_hspace s = s"
  by (induction s) (auto simp: dropWhile_hs_id)

lemma hd_hs_sub_blank [simp]: "hd_hs (sub_blank s) = hd_hs s"
proof (cases "re_blank s")
  case None
  then show ?thesis by (cases s) (simp_all add: sub_blank_nomatch)
next
  case (Some a)
  obtain u r where "a = (u, r)" by (cases a)
  with Some have m: "re_blank s = Some (u, r)" by simp
  then obtain w where "s = 10 # w @ 10 # r" using re_blank_Some by blast
  with sub_blank_match [OF m] show ?thesis by simp
qed

lemma hclean_append_right: "hclean (xs @ ys) \<Longrightarrow> hclean ys"
  by (induction xs) simp_all

lemma hd_hs_append: "hd_hs xs \<Longrightarrow> hd_hs (xs @ ys)"
  by (cases xs) simp_all

lemma hclean_append_left: "hclean (xs @ ys) \<Longrightarrow> hclean xs"
  by (induction xs) (auto dest: hd_hs_append)

lemma hclean_sub_blank: "hclean s \<Longrightarrow> hclean (sub_blank s)"
proof (induction s rule: sub_blank_induct)
  case Nil
  then show ?case by simp
next
  case (match s u r w)
  from match(2,5) have "hclean ((10 # w @ [10]) @ r)" by simp
  then have "hclean r" by (rule hclean_append_right)
  with match show ?case by (simp add: sub_blank_match)
next
  case (nomatch c cs)
  then show ?case by (simp add: sub_blank_nomatch)
qed

lemma hclean_strip: "hclean s \<Longrightarrow> hclean (strip s)"
proof -
  assume a: "hclean s"
  obtain u v where "s = u @ strip s @ v" using strip_decomp by blast
  with a have "hclean (u @ strip s @ v)" by simp
  then show ?thesis using hclean_append_left hclean_append_right by blast
qed

lemma hclean_no_tab: "hclean s \<Longrightarrow> 9 \<notin> set s"
  by (induction s) (auto split: if_splits)

lemma hclean_no_two_spaces: "hclean s \<Longrightarrow> \<not> sublist [32, 32] s"
proof (induction s)
  case Nil
  then show ?case by simp
next
  case (Cons c cs)
  have "\<not> prefix [32, 32] (c # cs)"
  proof
    assume "prefix [32, 32] (c # cs)"
    then obtain zs where "c = 32" "cs = 32 # zs" by (auto simp: prefix_def)
    with Cons.prems show False by simp
  qed
  moreover from Cons.prems have "hclean cs" by simp
  then have "\<not> sublist [32, 32] cs" by (rule Cons.IH)
  ultimately show ?case by (simp only: sublist_Cons_right) blast
qed

subsection \<open>The pattern for decimals: its substitution changes nothing\<close>

lemma m_chr_Some: "m_chr P k s = Some x \<Longrightarrow> \<exists>c cs. s = c # cs \<and> P c \<and> k cs = Some x"
  by (cases s) (auto simp: m_chr_def split: if_splits)

lemma m_star_Some: "m_star P k s = Some x \<Longrightarrow> \<exists>w r. s = w @ r \<and> k r = Some x"
proof (induction s)
  case Nil
  then show ?case by simp
next
  case (Cons c cs)
  show ?case
  proof (cases "P c \<and> m_star P k cs \<noteq> None")
    case True
    with Cons.prems have "m_star P k cs = Some x" by auto
    from Cons.IH [OF this] obtain w r where "cs = w @ r" "k r = Some x" by blast
    then have "c # cs = (c # w) @ r" by simp
    with \<open>k r = Some x\<close> show ?thesis by blast
  next
    case False
    with Cons.prems have "k (c # cs) = Some x" by (auto split: if_splits)
    then have "c # cs = [] @ (c # cs) \<and> k (c # cs) = Some x" by simp
    then show ?thesis by blast
  qed
qed

lemma m_plus_Some: "m_plus P k s = Some x \<Longrightarrow> \<exists>w r. s = w @ r \<and> w \<noteq> [] \<and> k r = Some x"
proof -
  assume "m_plus P k s = Some x"
  then have "m_chr P (m_star P k) s = Some x" by (simp only: m_plus_def)
  from m_chr_Some [OF this] obtain c cs where s: "s = c # cs" "m_star P k cs = Some x"
    by blast
  from m_star_Some [OF s(2)] obtain w r where "cs = w @ r" "k r = Some x" by blast
  with s have "s = (c # w) @ r" "c # w \<noteq> []" by simp_all
  with \<open>k r = Some x\<close> show ?thesis by blast
qed

lemma re_decimal_Some:
  assumes "re_decimal d s = Some ((g1, g2), r)"
  shows "s = g1 @ 46 # g2 @ r"
proof -
  from assms have "m_plus d
       (\<lambda>r1. m_chr is_dot
          (\<lambda>r2. m_plus d
             (\<lambda>r3. Some ((take (length s - length r1) s, take (length r2 - length r3) r2), r3))
             r2)
          r1)
       s = Some ((g1, g2), r)"
    by (simp only: re_decimal_def)
  from m_plus_Some [OF this] obtain w1 r1 where 1: "s = w1 @ r1"
    and k1: "m_chr is_dot (\<lambda>r2. m_plus d
             (\<lambda>r3. Some ((take (length s - length r1) s, take (length r2 - length r3) r2), r3))
             r2) r1 = Some ((g1, g2), r)"
    by blast
  from m_chr_Some [OF k1] obtain c r2 where 2: "r1 = c # r2" "is_dot c"
    and k2: "m_plus d
             (\<lambda>r3. Some ((take (length s - length r1) s, take (length r2 - length r3) r2), r3))
             r2 = Some ((g1, g2), r)"
    by blast
  from m_plus_Some [OF k2] obtain w3 r3 where 3: "r2 = w3 @ r3"
    and k3: "Some ((take (length s - length r1) s, take (length r2 - length r3) r2), r3)
             = Some ((g1, g2), r)"
    by blast
  from k3 1 3 have "g1 = w1" "g2 = w3" "r = r3" by simp_all
  with 1 2 3 show ?thesis by (simp add: is_dot_def)
qed

lemma sub_decimal_id: "re_sub (re_decimal d) (\<lambda>(g1, g2). g1 @ ustr ''.'' @ g2) s = s"
proof (induction s rule: length_induct)
  case (1 s)
  show ?case
  proof (cases "re_decimal d s")
    case None
    show ?thesis
    proof (cases s)
      case Nil
      with None show ?thesis by (subst re_sub.simps) simp
    next
      case (Cons c cs)
      with 1 have "re_sub (re_decimal d) (\<lambda>(g1, g2). g1 @ ustr ''.'' @ g2) cs = cs" by simp
      with None Cons show ?thesis by (subst re_sub.simps) simp
    qed
  next
    case (Some a)
    obtain g1 g2 r where a: "a = ((g1, g2), r)" by (cases a) auto
    with Some have s: "s = g1 @ 46 # g2 @ r" using re_decimal_Some by blast
    then have "length r < length s" by simp
    with 1 have "re_sub (re_decimal d) (\<lambda>(g1, g2). g1 @ ustr ''.'' @ g2) r = r" by blast
    with Some a s \<open>length r < length s\<close> show ?thesis
      by (subst re_sub.simps) (simp add: ustr_def)
  qed
qed

subsection \<open>Texts without outer whitespace\<close>

lemma strip_id: "takeWhile isspace s = [] \<Longrightarrow> takeWhile isspace (rev s) = [] \<Longrightarrow> strip s = s"
proof -
  assume a: "takeWhile isspace s = []" and b: "takeWhile isspace (rev s) = []"
  have "takeWhile isspace s @ dropWhile isspace s = s" by (rule takeWhile_dropWhile_id)
  with a have 1: "dropWhile isspace s = s" by (simp only: append_Nil)
  have "takeWhile isspace (rev s) @ dropWhile isspace (rev s) = rev s" by (rule takeWhile_dropWhile_id)
  with b have 2: "dropWhile isspace (rev s) = rev s" by (simp only: append_Nil)
  show ?thesis by (simp only: strip_def 1 2 rev_rev_ident)
qed

lemma takeWhile_dropWhile_Nil [simp]: "takeWhile P (dropWhile P s) = []"
  by (induction s) simp_all

lemma strip_trailing: "takeWhile isspace (rev (strip s)) = []"
  by (simp add: strip_def)

lemma takeWhile_Nil_append_left: "takeWhile P (xs @ ys) = [] \<Longrightarrow> takeWhile P xs = []"
  by (cases xs) (auto split: if_splits)

lemma strip_leading: "takeWhile isspace (strip s) = []"
proof -
  let ?d = "dropWhile isspace s"
  have "rev (dropWhile isspace (rev ?d)) @ rev (takeWhile isspace (rev ?d)) =
        rev (takeWhile isspace (rev ?d) @ dropWhile isspace (rev ?d))"
    by (simp only: rev_append)
  also have "\<dots> = ?d" by (simp only: takeWhile_dropWhile_id rev_rev_ident)
  finally have "?d = strip s @ rev (takeWhile isspace (rev ?d))"
    by (simp only: strip_def)
  moreover have "takeWhile isspace ?d = []" by simp
  ultimately have "takeWhile isspace (strip s @ rev (takeWhile isspace (rev ?d))) = []"
    by simp
  then show ?thesis by (rule takeWhile_Nil_append_left)
qed

lemma sublist_strip: "sublist p (strip s) \<Longrightarrow> sublist p s"
proof -
  assume a: "sublist p (strip s)"
  obtain u v where s: "s = u @ strip s @ v" using strip_decomp by blast
  have "sublist (strip s) (u @ strip s @ v)" by (rule sublist_appendI)
  with s have "sublist (strip s) s" by simp
  with a show ?thesis by (rule sublist_order.order_trans)
qed

subsection \<open>Replacing a misreading: what the result cannot contain\<close>

lemma prefix_replace_iff:
  assumes "p \<noteq> []"
  shows "apart p q \<Longrightarrow> apart r q \<Longrightarrow> prefix q (replace p r s) \<longleftrightarrow> prefix q s"
proof (induction q arbitrary: s)
  case Nil
  then show ?case by simp
next
  case (Cons d q)
  from Cons.prems have ap: "\<not> prefix p (d # q)" "\<not> prefix (d # q) p" "apart p q"
    and ar: "\<not> prefix r (d # q)" "\<not> prefix (d # q) r" "apart r q"
    by simp_all
  show ?case
  proof (cases s)
    case Nil
    with assms show ?thesis by simp
  next
    case (Cons c cs)
    show ?thesis
    proof (cases "prefix p (c # cs)")
      case True
      have "\<not> prefix (d # q) (c # cs)"
      proof
        assume "prefix (d # q) (c # cs)"
        with True have "prefix p (d # q) \<or> prefix (d # q) p" by (rule prefix_same_cases)
        with ap show False by blast
      qed
      moreover have "\<not> prefix (d # q) (r @ replace p r (drop (length p) (c # cs)))"
      proof
        assume a: "prefix (d # q) (r @ replace p r (drop (length p) (c # cs)))"
        have "prefix r (r @ replace p r (drop (length p) (c # cs)))" by simp
        with a have "prefix (d # q) r \<or> prefix r (d # q)" by (rule prefix_same_cases)
        with ar show False by blast
      qed
      ultimately show ?thesis using True Cons assms by simp
    next
      case False
      with assms Cons have "replace p r s = c # replace p r cs" by simp
      moreover have "prefix q (replace p r cs) \<longleftrightarrow> prefix q cs"
        using ap(3) ar(3) by (rule Cons.IH)
      ultimately show ?thesis using Cons by simp
    qed
  qed
qed

lemma not_sublist_append_new: "apart p r \<Longrightarrow> \<not> sublist p t \<Longrightarrow> \<not> sublist p (r @ t)"
proof (induction r)
  case Nil
  then show ?case by simp
next
  case (Cons c r)
  from Cons.prems have ap: "\<not> prefix p (c # r)" "\<not> prefix (c # r) p" "apart p r" by simp_all
  from ap(3) Cons.prems(2) have "\<not> sublist p (r @ t)" by (rule Cons.IH)
  moreover have "\<not> prefix p ((c # r) @ t)"
  proof
    assume a: "prefix p ((c # r) @ t)"
    have "prefix (c # r) ((c # r) @ t)" by (rule prefixI) simp
    with a have "prefix p (c # r) \<or> prefix (c # r) p" by (rule prefix_same_cases)
    with ap show False by blast
  qed
  ultimately show ?case by (simp add: sublist_Cons_right)
qed

lemma not_sublist_replace:
  assumes "p' \<noteq> []" and "apart (a # q) r'" and "apart p' q" and "apart r' q"
  shows "(\<And>u. suffix u s \<Longrightarrow> prefix (a # q) u \<Longrightarrow> prefix p' u)
         \<Longrightarrow> \<not> sublist (a # q) (replace p' r' s)"
proof (induction s rule: length_induct)
  case (1 s)
  show ?case
  proof (cases s)
    case Nil
    with assms(1) show ?thesis by simp
  next
    case (Cons c cs)
    show ?thesis
    proof (cases "prefix p' (c # cs)")
      case True
      let ?d = "drop (length p') (c # cs)"
      from True assms(1) have len: "length ?d < length s" using Cons by simp
      have suf: "suffix ?d s" unfolding Cons by (rule suffix_drop)
      have "\<not> sublist (a # q) (replace p' r' ?d)"
      proof (rule 1(1) [rule_format, OF len])
        fix u assume "suffix u ?d" "prefix (a # q) u"
        with suf show "prefix p' u" using 1(2) suffix_order.order_trans by blast
      qed
      with assms(2) have "\<not> sublist (a # q) (r' @ replace p' r' ?d)"
        by (rule not_sublist_append_new)
      with True assms(1) Cons show ?thesis by simp
    next
      case False
      have "\<not> sublist (a # q) (replace p' r' cs)"
      proof (rule 1(1) [rule_format])
        show "length cs < length s" using Cons by simp
      next
        fix u assume "suffix u cs" "prefix (a # q) u"
        moreover from \<open>suffix u cs\<close> have "suffix u s" unfolding Cons by (rule suffix_ConsI)
        ultimately show "prefix p' u" using 1(2) by blast
      qed
      moreover have "\<not> prefix (a # q) (c # replace p' r' cs)"
      proof
        assume "prefix (a # q) (c # replace p' r' cs)"
        then have "a = c" "prefix q (replace p' r' cs)" by simp_all
        with prefix_replace_iff [OF assms(1,3,4), of cs] have "prefix (a # q) (c # cs)" by simp
        with 1(2) [of s] Cons have "prefix p' (c # cs)" by simp
        with False show False by simp
      qed
      ultimately show ?thesis using False assms(1) Cons by (simp add: sublist_Cons_right)
    qed
  qed
qed

lemma replace_removes:
  assumes "a # q \<noteq> []" and "apart (a # q) r" and "apart (a # q) q" and "apart r q"
  shows "\<not> sublist (a # q) (replace (a # q) r s)"
  using assms by (intro not_sublist_replace) simp_all

lemma replace_keeps_free:
  assumes "p' \<noteq> []" and "apart (a # q) r'" and "apart p' q" and "apart r' q"
    and "\<not> sublist (a # q) s"
  shows "\<not> sublist (a # q) (replace p' r' s)"
proof (rule not_sublist_replace [OF assms(1-4)])
  fix u assume "suffix u s" "prefix (a # q) u"
  then have "sublist (a # q) s"
    using prefix_imp_sublist suffix_imp_sublist sublist_order.order_trans by blast
  with assms(5) show "prefix p' u" by simp
qed

lemma replace_id: "p \<noteq> [] \<Longrightarrow> \<not> sublist p s \<Longrightarrow> replace p r s = s"
proof (induction s)
  case Nil
  then show ?case by simp
next
  case (Cons c cs)
  from Cons.prems(2) have "\<not> prefix p (c # cs)" "\<not> sublist p cs"
    by (simp_all add: sublist_Cons_right)
  with Cons show ?case by simp
qed

lemma replace_same: "p \<noteq> [] \<Longrightarrow> replace p p s = s"
proof (induction s rule: length_induct)
  case (1 s)
  show ?case
  proof (cases s)
    case Nil
    with 1(2) show ?thesis by simp
  next
    case (Cons c cs)
    show ?thesis
    proof (cases "prefix p (c # cs)")
      case True
      then obtain zs where zs: "c # cs = p @ zs" by (auto simp: prefix_def)
      with 1(2) have "length zs < length s" using Cons by (cases p) auto
      with 1 have r: "replace p p zs = zs" by blast
      from True 1(2) have "replace p p (c # cs) = p @ replace p p (drop (length p) (c # cs))"
        by simp
      also have "drop (length p) (c # cs) = zs" unfolding zs by simp
      finally show ?thesis using r zs Cons by simp
    next
      case False
      with 1 Cons show ?thesis by simp
    qed
  qed
qed

subsection \<open>The whitespace passes create no misreading\<close>

lemma prefix_sub_hspace_iff:
  "\<forall>c\<in>set q. \<not> is_hspace c \<Longrightarrow> prefix q (sub_hspace s) \<longleftrightarrow> prefix q s"
proof (induction q arbitrary: s)
  case Nil
  then show ?case by simp
next
  case (Cons d q)
  then have d: "\<not> is_hspace d" and q: "\<forall>c\<in>set q. \<not> is_hspace c" by simp_all
  show ?case
  proof (cases s)
    case Nil
    then show ?thesis by simp
  next
    case (Cons c cs)
    show ?thesis
    proof (cases "is_hspace c")
      case True
      with d have "d \<noteq> c" "d \<noteq> 32" by auto
      with True Cons show ?thesis by simp
    next
      case False
      with Cons Cons.IH [OF q, of cs] show ?thesis by simp
    qed
  qed
qed

lemma not_sublist_sub_hspace:
  assumes "\<forall>c\<in>set (a # q). \<not> is_hspace c"
  shows "\<not> sublist (a # q) s \<Longrightarrow> \<not> sublist (a # q) (sub_hspace s)"
proof (induction s rule: sub_hspace_induct)
  case Nil
  then show ?case by simp
next
  case (hs c cs)
  have "suffix (dropWhile is_hspace cs) (c # cs)"
    by (rule suffix_ConsI) (rule suffix_dropWhile)
  with hs.prems have "\<not> sublist (a # q) (dropWhile is_hspace cs)"
    using suffix_imp_sublist sublist_order.order_trans by blast
  then have "\<not> sublist (a # q) (sub_hspace (dropWhile is_hspace cs))" by (rule hs.IH)
  moreover from assms have "a \<noteq> 32" by auto
  ultimately show ?case using hs(1) by (simp add: sublist_Cons_right)
next
  case (other c cs)
  from other.prems have n: "\<not> prefix (a # q) (c # cs)" "\<not> sublist (a # q) cs"
    by (simp_all add: sublist_Cons_right)
  from n(2) have "\<not> sublist (a # q) (sub_hspace cs)" by (rule other.IH)
  moreover from assms have "\<forall>c\<in>set q. \<not> is_hspace c" by simp
  from prefix_sub_hspace_iff [OF this, of cs] n(1)
  have "\<not> prefix (a # q) (c # sub_hspace cs)" by simp
  ultimately show ?case using other(1) by (simp add: sublist_Cons_right)
qed

lemma prefix_sub_blank_iff:
  "10 \<notin> set q \<Longrightarrow> prefix q (sub_blank s) \<longleftrightarrow> prefix q s"
proof (induction q arbitrary: s)
  case Nil
  then show ?case by simp
next
  case (Cons d q)
  then have d: "d \<noteq> 10" and q: "10 \<notin> set q" by simp_all
  show ?case
  proof (cases "re_blank s")
    case None
    show ?thesis
    proof (cases s)
      case Nil
      then show ?thesis by simp
    next
      case (Cons c cs)
      with None have "sub_blank s = c # sub_blank cs" by (simp add: sub_blank_nomatch)
      with Cons Cons.IH [OF q, of cs] show ?thesis by simp
    qed
  next
    case (Some x)
    obtain u r where "x = (u, r)" by (cases x)
    with Some have m: "re_blank s = Some (u, r)" by simp
    then obtain w where "s = 10 # w @ 10 # r" using re_blank_Some by blast
    with sub_blank_match [OF m] d show ?thesis by simp
  qed
qed

lemma not_sublist_sub_blank:
  assumes "10 \<notin> set (a # q)"
  shows "\<not> sublist (a # q) s \<Longrightarrow> \<not> sublist (a # q) (sub_blank s)"
proof (induction s rule: sub_blank_induct)
  case Nil
  then show ?case by simp
next
  case (match s u r w)
  have "suffix r s" unfolding match(2) by (rule suffixI [of _ "10 # w @ [10]"]) simp
  with match.prems have "\<not> sublist (a # q) r"
    using suffix_imp_sublist sublist_order.order_trans by blast
  then have "\<not> sublist (a # q) (sub_blank r)" by (rule match.IH)
  moreover from assms have "a \<noteq> 10" by auto
  ultimately show ?case using sub_blank_match [OF match(1)] by (simp add: sublist_Cons_right)
next
  case (nomatch c cs)
  from nomatch.prems have n: "\<not> prefix (a # q) (c # cs)" "\<not> sublist (a # q) cs"
    by (simp_all add: sublist_Cons_right)
  from n(2) have "\<not> sublist (a # q) (sub_blank cs)" by (rule nomatch.IH)
  moreover from assms have "10 \<notin> set q" by simp
  from prefix_sub_blank_iff [OF this, of cs] n(1)
  have "\<not> prefix (a # q) (c # sub_blank cs)" by simp
  ultimately show ?case using sub_blank_nomatch [OF nomatch(1)] by (simp add: sublist_Cons_right)
qed

subsection \<open>One pass of the normalizer, and a second one\<close>

lemma free_Lable: "\<not> sublist (ustr ''Lable'') (fix_misreads t)"
  by (simp add: fix_misreads_def replacements_def ustr_def replace_keeps_free replace_removes)

lemma free_Phn: "\<not> sublist (ustr ''Phn:'') (fix_misreads t)"
  by (simp add: fix_misreads_def replacements_def ustr_def replace_keeps_free replace_removes)

lemma free_Qty: "\<not> sublist (ustr ''Qty:'') (fix_misreads t)"
  by (simp add: fix_misreads_def replacements_def ustr_def replace_keeps_free replace_removes)

lemma free_Amt: "\<not> sublist (ustr ''Amt:'') (fix_misreads t)"
  by (simp add: fix_misreads_def replacements_def ustr_def replace_keeps_free replace_removes)

lemma free_Cewkehy: "\<not> sublist (ustr ''Cewkehy'') (fix_misreads t)"
  by (simp add: fix_misreads_def replacements_def ustr_def replace_keeps_free replace_removes)

lemma free_Srey: "\<not> sublist (ustr ''Srey'') (fix_misreads t)"
  by (simp add: fix_misreads_def replacements_def ustr_def replace_keeps_free replace_removes)

lemma pfree_fix_misreads: "pfree (fix_misreads t)"
  unfolding pfree_def
  using free_Lable free_Phn free_Qty free_Amt free_Cewkehy free_Srey by blast

lemma Amt_in_SubTotal: "sublist (ustr ''Amt:'') (ustr ''+|bCAmt:+/2'' @ [162])"
proof -
  have "ustr ''+|bCAmt:+/2'' @ [162] = ustr ''+|bC'' @ ustr ''Amt:'' @ (ustr ''+/2'' @ [162])"
    by (simp add: ustr_def)
  then show ?thesis by (simp only: sublist_appendI)
qed

lemma fix_misreads_id:
  assumes "pfree t"
  shows "fix_misreads t = t"
proof -
  from assms have "\<not> sublist (ustr ''Amt:'') t" by (simp add: pfree_def)
  with Amt_in_SubTotal have "\<not> sublist (ustr ''+|bCAmt:+/2'' @ [162]) t"
    using sublist_order.order_trans by blast
  moreover have "ustr ''Lable'' \<noteq> []" "ustr ''Chola'' \<noteq> []" "ustr ''+|bCAmt:+/2'' @ [162] \<noteq> []"
    "ustr ''Phn:'' \<noteq> []" "ustr ''Qty:'' \<noteq> []" "ustr ''Amt:'' \<noteq> []" "ustr ''Cewkehy'' \<noteq> []"
    "ustr ''Srey'' \<noteq> []"
    by (simp_all add: ustr_def)
  ultimately show ?thesis using assms
    by (simp add: fix_misreads_def replacements_def pfree_def replace_id replace_same)
qed

lemma pfree_sub_hspace: "pfree t \<Longrightarrow> pfree (sub_hspace t)"
  unfolding pfree_def by (simp add: ustr_def not_sublist_sub_hspace is_hspace_def)

lemma pfree_sub_blank: "pfree t \<Longrightarrow> pfree (sub_blank t)"
  unfolding pfree_def by (simp add: ustr_def not_sublist_sub_blank)

lemma pfree_strip: "pfree t \<Longrightarrow> pfree (strip t)"
  unfolding pfree_def using sublist_strip by blast

lemma clean_str_unfold:
  "clean_str d t = (if t = [] then t else strip (sub_blank (sub_hspace (fix_misreads t))))"
  by (simp add: clean_str_def fix_misreads_def sub_blank_def sub_hspace_def sub_decimal_id)

lemma tidy_Nil: "tidy []"
  by (simp add: tidy_def pfree_def ustr_def)

lemma tidy_clean_str: "tidy (clean_str d t)"
proof (cases "t = []")
  case True
  then show ?thesis by (simp add: clean_str_def tidy_Nil)
next
  case False
  let ?a = "sub_blank (sub_hspace (fix_misreads t))"
  have "pfree ?a" by (intro pfree_sub_blank pfree_sub_hspace pfree_fix_misreads)
  moreover have "hclean ?a" by (intro hclean_sub_blank hclean_sub_hspace)
  moreover have "bfree ?a" by (rule bfree_sub_blank)
  ultimately show ?thesis using False
    by (simp add: clean_str_unfold tidy_def pfree_strip hclean_strip bfree_strip
        strip_leading strip_trailing)
qed

lemma clean_str_tidy: "tidy t \<Longrightarrow> clean_str d t = t"
  by (simp add: clean_str_unfold tidy_def fix_misreads_id sub_hspace_id sub_blank_id strip_id)

lemma clean_str_idem: "clean_str d (clean_str d t) = clean_str d t"
  by (rule clean_str_tidy) (rule tidy_clean_str)

section \<open>Properties of the handler\<close>

declare str_nat.simps [simp del]

subsection \<open>Extraction adds text and calls, whatever was there before\<close>

lemma call_Inl [simp]: "call ev (Inl e) k log = (Inl e, log @ [ev])"
  by (simp add: call_def)

lemma call_Inr [simp]: "call ev (Inr v) k log = k v (log @ [ev])"
  by (simp add: call_def)

lemma ocr_pages_shift:
  "ocr_pages E pages t l =
     (case ocr_pages E pages [] [] of
        (Inl e, l') \<Rightarrow> (Inl e, l @ l')
      | (Inr b, l') \<Rightarrow> (Inr (t @ b), l @ l'))"
proof (induction pages arbitrary: t l)
  case Nil
  then show ?case by simp
next
  case (Cons p ps)
  show ?case
  proof (cases "image_to_string E [] p")
    case (Inl e)
    then show ?thesis by simp
  next
    case (Inr x)
    have "ocr_pages E (p # ps) t l = ocr_pages E ps (t @ x @ [10]) (l @ [ImageToString [] p])"
      using Inr by simp
    also have "\<dots> = (case ocr_pages E ps [] [] of
        (Inl e, l') \<Rightarrow> (Inl e, (l @ [ImageToString [] p]) @ l')
      | (Inr b, l') \<Rightarrow> (Inr ((t @ x @ [10]) @ b), (l @ [ImageToString [] p]) @ l'))"
      by (rule Cons.IH)
    finally have lhs: "ocr_pages E (p # ps) t l = (case ocr_pages E ps [] [] of
        (Inl e, l') \<Rightarrow> (Inl e, (l @ [ImageToString [] p]) @ l')
      | (Inr b, l') \<Rightarrow> (Inr ((t @ x @ [10]) @ b), (l @ [ImageToString [] p]) @ l'))" .
    have "ocr_pages E (p # ps) [] [] = ocr_pages E ps (x @ [10]) [ImageToString [] p]"
      using Inr by simp
    also have "\<dots> = (case ocr_pages E ps [] [] of
        (Inl e, l') \<Rightarrow> (Inl e, [ImageToString [] p] @ l')
      | (Inr b, l') \<Rightarrow> (Inr ((x @ [10]) @ b), [ImageToString [] p] @ l'))"
      by (rule Cons.IH)
    finally have rhs: "ocr_pages E (p # ps) [] [] = (case ocr_pages E ps [] [] of
        (Inl e, l') \<Rightarrow> (Inl e, [ImageToString [] p] @ l')
      | (Inr b, l') \<Rightarrow> (Inr ((x @ [10]) @ b), [ImageToString [] p] @ l'))" .
    show ?thesis unfolding lhs rhs by (simp split: prod.splits sum.splits)
  qed
qed

lemma extract_file_shift:
  "extract_file E f t l =
     (case extract_file E f [] [] of
        (Inl e, l') \<Rightarrow> (Inl e, l @ l')
      | (Inr b, l') \<Rightarrow> (Inr (t @ b), l @ l'))"
proof (cases "content_type f = Some (ustr ''application/pdf'')")
  case True
  show ?thesis
  proof (cases "convert_from_bytes E (contents f)")
    case (Inl e)
    with True show ?thesis by (simp add: extract_file_def)
  next
    case (Inr pages)
    have 1: "extract_file E f t l = ocr_pages E pages t (l @ [ConvertFromBytes (contents f)])"
      using True Inr by (simp add: extract_file_def)
    have 2: "extract_file E f [] [] = ocr_pages E pages [] [ConvertFromBytes (contents f)]"
      using True Inr by (simp add: extract_file_def)
    show ?thesis unfolding 1 2
      by (subst ocr_pages_shift, subst (2) ocr_pages_shift) (simp split: prod.splits sum.splits)
  qed
next
  case False
  then show ?thesis
    by (simp add: extract_file_def call_def Let_def split: sum.splits)
qed

lemma extract_file_Inr:
  assumes "extract_file E f t l = (Inr t', l')"
  shows "t' = t @ body_of E f"
proof -
  from assms show ?thesis
    by (subst (asm) extract_file_shift) (auto simp: body_of_def split: prod.splits sum.splits)
qed

subsection \<open>The loop over the files\<close>

lemma process_files_append:
  "process_files E (xs @ ys) t n l =
     (case process_files E xs t n l of
        (Inl e, l') \<Rightarrow> (Inl e, l')
      | (Inr (t', n'), l') \<Rightarrow> process_files E ys t' n' l')"
  by (induction xs arbitrary: t n l) (auto split: prod.splits sum.splits)

lemma process_files_Inr:
  "process_files E files t n l = (Inr (t', n'), l') \<Longrightarrow>
   t' = t @ framed n (map (body_of E) files) \<and> n' = n + length files"
proof (induction files arbitrary: t n l)
  case Nil
  then show ?case by simp
next
  case (Cons f fs)
  from Cons.prems obtain t1 l1 where
    ex: "extract_file E f (t @ start_banner n) l = (Inr t1, l1)"
    and rest: "process_files E fs (t1 @ end_banner n) (n + 1) l1 = (Inr (t', n'), l')"
    by (auto split: if_splits prod.splits sum.splits)
  from extract_file_Inr [OF ex] have t1: "t1 = (t @ start_banner n) @ body_of E f" .
  from Cons.IH [OF rest] have "t' = (t1 @ end_banner n) @ framed (n + 1) (map (body_of E) fs)"
    "n' = n + 1 + length fs" by simp_all
  with t1 show ?case by simp
qed

lemma strip_eq_Nil: "strip s = [] \<Longrightarrow> \<forall>c\<in>set s. isspace c"
proof -
  assume "strip s = []"
  then have "dropWhile isspace (rev (dropWhile isspace s)) = []" by (simp add: strip_def)
  then have "\<forall>c\<in>set (rev (dropWhile isspace s)). isspace c"
    by (simp only: dropWhile_eq_Nil_conv)
  then have "dropWhile isspace (dropWhile isspace s) = []"
    by (simp only: dropWhile_eq_Nil_conv set_rev)
  then have "dropWhile isspace s = []" by (simp only: dropWhile_idem)
  then show ?thesis by (simp only: dropWhile_eq_Nil_conv)
qed

lemma B_in_start_banner: "66 \<in> set (start_banner n)"
  by (simp add: start_banner_def ustr_def)

lemma not_isspace_B: "\<not> isspace 66"
  by (simp add: isspace_def)

lemma process_files_not_blank:
  assumes "process_files E files [] n [] = (Inr (all_text, n'), log)" and "files \<noteq> []"
  shows "strip all_text \<noteq> []"
proof
  assume "strip all_text = []"
  then have sp: "\<forall>c\<in>set all_text. isspace c" by (rule strip_eq_Nil)
  from assms(2) obtain f fs where "files = f # fs" by (cases files) auto
  with process_files_Inr [OF assms(1)] have "all_text = start_banner n @ body_of E f @
      end_banner n @ framed (n + 1) (map (body_of E) fs)" by simp
  with B_in_start_banner [of n] have "66 \<in> set all_text" by simp
  with sp not_isspace_B show False by blast
qed

lemma process_files_Inl:
  "process_files E files t n l = (Inl err, l') \<Longrightarrow>
   status_code err = 500 \<or> prefix (ustr ''Unsupported'') (detail err)"
proof (induction files arbitrary: t n l)
  case Nil
  then show ?case by simp
next
  case (Cons f fs)
  show ?case
  proof (cases "content_type f \<in> set allowed_types")
    case False
    with Cons.prems show ?thesis by (auto simp: ustr_def)
  next
    case True
    obtain r l1 where ex: "extract_file E f (t @ start_banner n) l = (r, l1)"
      by (cases "extract_file E f (t @ start_banner n) l")
    show ?thesis
    proof (cases r)
      case (Inl e)
      with True ex Cons.prems show ?thesis by auto
    next
      case (Inr t1)
      with True ex Cons.prems
      have "process_files E fs (t1 @ end_banner n) (n + 1) l1 = (Inl err, l')" by simp
      then show ?thesis by (rule Cons.IH)
    qed
  qed
qed

lemma process_images_ok:
  assumes "files \<noteq> []" and "process_files E files [] 1 [] = (Inr (all_text, n), log)"
  shows "process_images E files = ask_model E (build_prompt (clean_str (isdigit E) all_text)) log"
  using assms process_files_not_blank [OF assms(2,1)] by (simp add: process_images_def)

lemma no_text_error_unreachable:
  "fst (process_images E files) \<noteq> Inl (HTTPException 400 (ustr ''No text extracted from images''))"
proof (cases "files = []")
  case True
  then show ?thesis by (simp add: process_images_def ustr_def)
next
  case False
  obtain r log where pf: "process_files E files [] 1 [] = (r, log)" by (cases "process_files E files [] 1 []")
  show ?thesis
  proof (cases r)
    case (Inl err)
    from pf Inl have "status_code err = 500 \<or> prefix (ustr ''Unsupported'') (detail err)"
      using process_files_Inl by blast
    then have "err \<noteq> HTTPException 400 (ustr ''No text extracted from images'')"
      by (auto simp: ustr_def)
    with False pf Inl show ?thesis by (simp add: process_images_def)
  next
    case (Inr x)
    obtain all_text n where "x = (all_text, n)" by (cases x)
    with pf Inr have ok: "process_files E files [] 1 [] = (Inr (all_text, n), log)" by simp
    show ?thesis unfolding process_images_ok [OF False ok]
      by (auto simp: ask_model_def Let_def ustr_def split: sum.splits json_error.splits)
  qed
qed

subsection \<open>Code fences\<close>

lemma fenced_shape:
  assumes "prefix (ustr ''```json'') s" and "suffix (ustr ''```'') s"
  shows "\<exists>interior. s = ustr ''```json'' @ interior @ ustr ''```''"
proof -
  from assms(1) obtain r where s: "s = ustr ''```json'' @ r" by (auto simp: prefix_def)
  show ?thesis
  proof (cases "3 \<le> length r")
    case True
    from assms(2) obtain u where u: "s = u @ ustr ''```''" by (auto simp: suffix_def)
    have "r = take (length r - 3) r @ drop (length r - 3) r" by simp
    moreover have "drop (length r - 3) r = ustr ''```''"
    proof -
      have "drop (length s - 3) s = ustr ''```''" unfolding u by (simp add: ustr_def)
      moreover have "drop (length s - 3) s = drop (length r - 3) r"
      proof -
        have "length s - 3 = 7 + (length r - 3)" unfolding s using True by (simp add: ustr_def)
        moreover have "drop (7 + (length r - 3)) s = drop (length r - 3) (drop 7 s)"
          by (simp only: drop_drop add.commute)
        moreover have "drop 7 s = r" unfolding s by (simp add: ustr_def)
        ultimately show ?thesis by simp
      qed
      ultimately show ?thesis by simp
    qed
    ultimately have "r = take (length r - 3) r @ ustr ''```''" by simp
    with s have "s = ustr ''```json'' @ take (length r - 3) r @ ustr ''```''" by simp
    then show ?thesis by blast
  next
    case False
    then have "length r = 0 \<or> length r = Suc 0 \<or> length r = Suc (Suc 0)" by arith
    then consider "r = []" | a where "r = [a]" | a b where "r = [a, b]"
      by (auto simp: length_Suc_conv)
    then show ?thesis
    proof cases
      case 1
      with assms(2) s show ?thesis by (simp add: ustr_def suffix_to_prefix)
    next
      case 2
      with assms(2) s show ?thesis by (simp add: ustr_def suffix_to_prefix)
    next
      case 3
      with assms(2) s show ?thesis by (simp add: ustr_def suffix_to_prefix)
    qed
  qed
qed

lemma strip_fences_fenced:
  assumes "strip text = ustr ''```json'' @ interior @ ustr ''```''"
  shows "strip_fences text = strip interior"
proof -
  have 1: "prefix (ustr ''```json'') (strip text)" unfolding assms by simp
  have 2: "drop 7 (strip text) = interior @ ustr ''```''" unfolding assms by (simp add: ustr_def)
  have 3: "suffix (ustr ''```'') (interior @ ustr ''```'')" by (rule suffixI) simp
  have 4: "take (length (interior @ ustr ''```'') - 3) (interior @ ustr ''```'') = interior"
    by (simp add: ustr_def)
  show ?thesis unfolding strip_fences_def Let_def using 1 2 3 4 by simp
qed

subsection \<open>The longest of three texts, and the sample runs\<close>

lemma max_by_len_3:
  "max_by_len a [b, c] \<in> set [a, b, c] \<and> length a \<le> length (max_by_len a [b, c]) \<and>
   length b \<le> length (max_by_len a [b, c]) \<and> length c \<le> length (max_by_len a [b, c])"
  by simp

lemma configs_distinct: "distinct [custom_config, config2, config3]"
  by (simp add: custom_config_def config2_def config3_def ustr_def)

lemma sample_env_png:
  "extract_file (sample_env (ustr ''Rice 50'') answer) png_file t l =
     (Inr (t @ ustr ''Rice 50Rice 50'' @ [10]),
      l @ [ImageOpen [137, 80], ImageToString custom_config (), ImageToString config2 (),
           ImageToString config3 ()])"
  by (simp add: extract_file_def sample_env_def png_file_def ustr_def custom_config_def
      config2_def config3_def)

lemma png_allowed: "content_type png_file \<in> set allowed_types"
  by (simp add: png_file_def allowed_types_def)

lemma sample_env_one_png:
  "process_files (sample_env (ustr ''Rice 50'') answer) [png_file] [] 1 [] =
     (Inr (start_banner 1 @ ustr ''Rice 50Rice 50'' @ [10] @ end_banner 1, 2),
      [ImageOpen [137, 80], ImageToString custom_config (), ImageToString config2 (),
       ImageToString config3 ()])"
  using png_allowed by (simp add: sample_env_png)


lemma txt_not_allowed: "content_type txt_file \<notin> set allowed_types"
  by (simp add: txt_file_def allowed_types_def ustr_def)

lemma broken_png_allowed: "content_type broken_png_file \<in> set allowed_types"
  by (simp add: broken_png_file_def allowed_types_def)

lemma sample_env_broken_png:
  "extract_file (sample_env a b) broken_png_file t l =
     (Inl (ustr ''cannot identify image file''), l @ [ImageOpen []])"
  by (simp add: extract_file_def sample_env_def broken_png_file_def ustr_def)

lemma strip_sample_answer: "strip (ustr '' ```json nope ``` '') = ustr ''```json nope ```''"
  by (simp add: strip_def ustr_def isspace_def)

lemma strip_fences_sample_answer: "strip_fences (ustr '' ```json nope ``` '') = ustr ''nope''"
  by (simp add: strip_fences_def strip_def ustr_def isspace_def suffix_to_prefix)

lemma sample_env_blank_png:
  "extract_file (sample_env [] answer) png_file t l =
     (Inr (t @ [10]),
      l @ [ImageOpen [137, 80], ImageToString custom_config (), ImageToString config2 (),
           ImageToString config3 ()])"
  by (simp add: extract_file_def sample_env_def png_file_def ustr_def custom_config_def
      config2_def config3_def)

subsection \<open>Different indices give different banners\<close>

lemma val_str_nat: "val_digits (str_nat n) = n"
proof (induction n rule: str_nat.induct)
  case (1 n)
  show ?case
  proof (cases "n < 10")
    case True
    then show ?thesis by (subst str_nat.simps) simp
  next
    case False
    with 1 have "val_digits (str_nat (n div 10)) = n div 10" by simp
    with False show ?thesis by (subst str_nat.simps) simp
  qed
qed

lemma str_nat_inj: "str_nat i = str_nat j \<Longrightarrow> i = j"
  using val_str_nat by metis

lemma start_banner_inj: "start_banner i = start_banner j \<Longrightarrow> i = j"
proof -
  assume "start_banner i = start_banner j"
  then have "str_nat i @ (ustr '' - START'' @ [10]) @ (replicate 60 61 @ [10, 10]) =
             str_nat j @ (ustr '' - START'' @ [10]) @ (replicate 60 61 @ [10, 10])"
    unfolding start_banner_def by (simp only: append_assoc same_append_eq)
  then have "str_nat i = str_nat j" by (simp only: append_same_eq)
  then show ?thesis by (rule str_nat_inj)
qed

lemma end_banner_inj: "end_banner i = end_banner j \<Longrightarrow> i = j"
proof -
  assume "end_banner i = end_banner j"
  then have "str_nat i @ (ustr '' - END'' @ [10]) @ (replicate 60 61 @ [10, 10]) =
             str_nat j @ (ustr '' - END'' @ [10]) @ (replicate 60 61 @ [10, 10])"
    unfolding end_banner_def by (simp only: append_assoc same_append_eq)
  then have "str_nat i = str_nat j" by (simp only: append_same_eq)
  then show ?thesis by (rule str_nat_inj)
qed

subsection \<open>Reading the banners back from the framed text\<close>




















section \<open>Claims about the normalizer\<close>

text \<open>
  Claim C2. The normalizer is idempotent: for every input \<open>t\<close> (a string or \<open>None\<close>),
  \<open>clean_ocr_text(clean_ocr_text(t))\<close> is \<open>clean_ocr_text(t)\<close>. This holds whatever the
  runtime's table of decimal digits is.
\<close>

theorem clean_ocr_text_idempotent:
  "clean_ocr_text d (clean_ocr_text d t) = clean_ocr_text d t"
  by (cases t) (simp_all add: clean_ocr_text_def clean_str_idem)

text \<open>
  Claim C10. The output of \<open>clean_ocr_text\<close> on a string holds no tab, no two adjacent
  spaces and no three adjacent newlines, and neither starts nor ends with whitespace; a
  falsy input (\<open>None\<close> or the empty string) comes back unchanged.
\<close>

theorem clean_ocr_text_shape:
  "clean_ocr_text d (Some t) = Some (clean_str d t) \<and>
   9 \<notin> set (clean_str d t) \<and>
   \<not> sublist [32, 32] (clean_str d t) \<and>
   \<not> sublist [10, 10, 10] (clean_str d t) \<and>
   takeWhile isspace (clean_str d t) = [] \<and>
   takeWhile isspace (rev (clean_str d t)) = [] \<and>
   clean_ocr_text d None = None \<and>
   clean_ocr_text d (Some []) = Some []"
proof -
  have t: "tidy (clean_str d t)" by (rule tidy_clean_str)
  then have "hclean (clean_str d t)" "bfree (clean_str d t)" by (simp_all add: tidy_def)
  then have "9 \<notin> set (clean_str d t)" "\<not> sublist [32, 32] (clean_str d t)"
    "\<not> sublist [10, 10, 10] (clean_str d t)"
    by (simp_all add: hclean_no_tab hclean_no_two_spaces bfree_no_three_newlines)
  moreover from t have "takeWhile isspace (clean_str d t) = []"
    "takeWhile isspace (rev (clean_str d t)) = []"
    by (simp_all add: tidy_def)
  moreover have "clean_ocr_text d (Some t) = Some (clean_str d t)" "clean_ocr_text d None = None"
    "clean_ocr_text d (Some []) = Some []"
    by (simp_all add: clean_ocr_text_def clean_str_def)
  ultimately show ?thesis by blast
qed

section \<open>Claims about the handler\<close>

text \<open>
  Claim C8. An empty upload list is answered with the 400 error \<open>No files provided\<close>,
  and no call to the PDF rasterizer, the OCR engine or the model is made: the record of
  calls is empty.
\<close>

theorem empty_upload_rejected:
  "process_images E [] = (Inl (HTTPException 400 (ustr ''No files provided'')), [])"
  by (simp add: process_images_def)

text \<open>
  Claim C1, as stated, fails. The content type of a file is checked when the loop
  reaches the file, so the files before a disallowed one have been through OCR by then:
  for a PNG followed by a \<open>text/plain\<close> file the request is rejected with 400 after
  the three OCR calls for the PNG.
\<close>

theorem disallowed_type_after_ocr:
  "process_images (sample_env (ustr ''Rice 50'') (ustr ''[1]'')) [png_file, txt_file] =
     (Inl (HTTPException 400 (ustr ''Unsupported file type: text/plain'')),
      [ImageOpen [137, 80], ImageToString custom_config (), ImageToString config2 (),
       ImageToString config3 ()])"
  using png_allowed
  by (simp add: process_images_def sample_env_png)
     (simp add: txt_file_def allowed_types_def fmt_def ustr_def)

text \<open>
  Claim C1, amended. When the files before a disallowed one are all extracted without an
  exception, the request is rejected with the 400 error \<open>Unsupported file type\<close>
  naming the declared type, and the calls made are exactly those for the earlier files:
  none for the disallowed file, none for a later one. With no earlier file there is no
  call at all.
\<close>

theorem disallowed_type_rejected:
  assumes "process_files E pre [] 1 [] = (Inr (t, n), log)"
    and "content_type bad \<notin> set allowed_types"
  shows "process_images E (pre @ bad # post) =
           (Inl (HTTPException 400 (ustr ''Unsupported file type: '' @ fmt (content_type bad))), log)"
  using assms by (simp add: process_images_def process_files_append)

theorem disallowed_type_rejected_witness:
  "process_files (sample_env (ustr ''Rice 50'') (ustr ''[1]'')) [png_file] [] 1 [] =
     (Inr (start_banner 1 @ ustr ''Rice 50Rice 50'' @ [10] @ end_banner 1, 2),
      [ImageOpen [137, 80], ImageToString custom_config (), ImageToString config2 (),
       ImageToString config3 ()]) \<and>
   content_type txt_file \<notin> set allowed_types \<and>
   process_images (sample_env (ustr ''Rice 50'') (ustr ''[1]'')) ([png_file] @ txt_file # [png_file]) =
     (Inl (HTTPException 400 (ustr ''Unsupported file type: '' @ fmt (content_type txt_file))),
      [ImageOpen [137, 80], ImageToString custom_config (), ImageToString config2 (),
       ImageToString config3 ()])"
proof -
  note h1 = sample_env_one_png [of "ustr ''[1]''"]
  note h2 = txt_not_allowed
  from disallowed_type_rejected [OF h1 h2, of "[png_file]"] h1 h2 show ?thesis by blast
qed

text \<open>
  Claim C3 fails on the code. When every OCR call returns the empty string, the text
  gathered still holds the banners, so the test for blank text does not fire: the model
  is asked, and its answer is returned. (By \<open>no_text_error_unreachable\<close> the error
  \<open>No text extracted from images\<close> is never the outcome of a request.)
\<close>

theorem blank_ocr_reaches_model:
  "process_images (sample_env [] (ustr ''[1]'')) [png_file] =
     (Inr (Data 1),
      [ImageOpen [137, 80], ImageToString custom_config (), ImageToString config2 (),
       ImageToString config3 (),
       GenerateContent (build_prompt (clean_str (isdigit (sample_env [] (ustr ''[1]'')))
         (start_banner 1 @ [10] @ end_banner 1)))])"
proof -
  let ?E = "sample_env [] (ustr ''[1]'')"
  have h1: "[png_file] \<noteq> []" by simp
  have h2: "process_files ?E [png_file] [] 1 [] =
     (Inr (start_banner 1 @ [10] @ end_banner 1, 2),
      [ImageOpen [137, 80], ImageToString custom_config (), ImageToString config2 (),
       ImageToString config3 ()])"
    using png_allowed by (simp add: sample_env_blank_png)
  have h3: "generate_content ?E (build_prompt (clean_str (isdigit ?E)
      (start_banner 1 @ [10] @ end_banner 1))) = Inr (ustr ''[1]'')"
    by (simp add: sample_env_def)
  have h4: "json_loads ?E (strip_fences (ustr ''[1]'')) = Inr 1"
    by (simp add: sample_env_def strip_fences_def strip_def ustr_def isspace_def suffix_to_prefix)
  show ?thesis unfolding process_images_ok [OF h1 h2] using h3 h4
    by (simp add: ask_model_def)
qed




text \<open>
  Claim C5. The answer of the model is stripped of whitespace; when it then starts with
  the opening fence and ends with the closing fence, it is the two fences around an
  interior, and the text given to the JSON parser is that interior, stripped. Whatever
  the answer, the outcome is decided by the JSON parser on the text without fences: a
  decode error becomes a 500 error whose detail holds the first 200 characters of that
  text.
\<close>

theorem fenced_response_parsing:
  assumes "files \<noteq> []"
    and "process_files E files [] 1 [] = (Inr (all_text, n), log)"
    and "generate_content E (build_prompt (clean_str (isdigit E) all_text)) = Inr text"
  shows "(prefix (ustr ''```json'') (strip text) \<and> suffix (ustr ''```'') (strip text) \<longrightarrow>
           (\<exists>interior. strip text = ustr ''```json'' @ interior @ ustr ''```'' \<and>
                       strip_fences text = strip interior)) \<and>
         process_images E files =
           (case json_loads E (strip_fences text) of
              Inr v \<Rightarrow> Inr (Data v)
            | Inl (JSONDecodeError e) \<Rightarrow>
                Inl (HTTPException 500
                      (ustr ''Invalid JSON from Gemini: '' @ take 200 (strip_fences text) @
                       ustr ''... Error: '' @ e))
            | Inl (OtherError e) \<Rightarrow>
                Inl (HTTPException 500 (ustr ''Error processing with Gemini: '' @ e)),
            log @ [GenerateContent (build_prompt (clean_str (isdigit E) all_text))])"
proof
  show "prefix (ustr ''```json'') (strip text) \<and> suffix (ustr ''```'') (strip text) \<longrightarrow>
           (\<exists>interior. strip text = ustr ''```json'' @ interior @ ustr ''```'' \<and>
                       strip_fences text = strip interior)"
    using fenced_shape strip_fences_fenced by blast
  show "process_images E files =
           (case json_loads E (strip_fences text) of
              Inr v \<Rightarrow> Inr (Data v)
            | Inl (JSONDecodeError e) \<Rightarrow>
                Inl (HTTPException 500
                      (ustr ''Invalid JSON from Gemini: '' @ take 200 (strip_fences text) @
                       ustr ''... Error: '' @ e))
            | Inl (OtherError e) \<Rightarrow>
                Inl (HTTPException 500 (ustr ''Error processing with Gemini: '' @ e)),
            log @ [GenerateContent (build_prompt (clean_str (isdigit E) all_text))])"
    unfolding process_images_ok [OF assms(1,2)] using assms(3)
    by (simp add: ask_model_def Let_def)
qed

theorem fenced_response_parsing_witness:
  "[png_file] \<noteq> [] \<and>
   process_files (sample_env (ustr ''Rice 50'') (ustr '' ```json nope ``` '')) [png_file] [] 1 [] =
     (Inr (start_banner 1 @ ustr ''Rice 50Rice 50'' @ [10] @ end_banner 1, 2),
      [ImageOpen [137, 80], ImageToString custom_config (), ImageToString config2 (),
       ImageToString config3 ()]) \<and>
   prefix (ustr ''```json'') (strip (ustr '' ```json nope ``` '')) \<and>
   suffix (ustr ''```'') (strip (ustr '' ```json nope ``` '')) \<and>
   strip_fences (ustr '' ```json nope ``` '') = ustr ''nope'' \<and>
   fst (process_images (sample_env (ustr ''Rice 50'') (ustr '' ```json nope ``` '')) [png_file]) =
     Inl (HTTPException 500 (ustr ''Invalid JSON from Gemini: nope... Error: Expecting value''))"
proof -
  let ?E = "sample_env (ustr ''Rice 50'') (ustr '' ```json nope ``` '')"
  have h1: "[png_file] \<noteq> []" by simp
  note h2 = sample_env_one_png [of "ustr '' ```json nope ``` ''"]
  have h3: "generate_content ?E
      (build_prompt (clean_str (isdigit ?E)
         (start_banner 1 @ ustr ''Rice 50Rice 50'' @ [10] @ end_banner 1))) =
      Inr (ustr '' ```json nope ``` '')"
    by (simp add: sample_env_def)
  have p: "prefix (ustr ''```json'') (strip (ustr '' ```json nope ``` ''))"
    unfolding strip_sample_answer by (simp add: ustr_def)
  have q: "suffix (ustr ''```'') (strip (ustr '' ```json nope ``` ''))"
    unfolding strip_sample_answer by (simp add: ustr_def suffix_to_prefix)
  have j: "json_loads ?E (ustr ''nope'') = Inl (JSONDecodeError (ustr ''Expecting value''))"
    by (simp add: sample_env_def ustr_def)
  from fenced_response_parsing [OF h1 h2 h3]
  have "process_images ?E [png_file] =
           (case json_loads ?E (strip_fences (ustr '' ```json nope ``` '')) of
              Inr v \<Rightarrow> Inr (Data v)
            | Inl (JSONDecodeError e) \<Rightarrow>
                Inl (HTTPException 500
                      (ustr ''Invalid JSON from Gemini: '' @
                       take 200 (strip_fences (ustr '' ```json nope ``` '')) @
                       ustr ''... Error: '' @ e))
            | Inl (OtherError e) \<Rightarrow>
                Inl (HTTPException 500 (ustr ''Error processing with Gemini: '' @ e)),
            [ImageOpen [137, 80], ImageToString custom_config (), ImageToString config2 (),
             ImageToString config3 ()] @
            [GenerateContent (build_prompt (clean_str (isdigit ?E)
               (start_banner 1 @ ustr ''Rice 50Rice 50'' @ [10] @ end_banner 1)))])"
    by (rule conjunct2)
  then have "fst (process_images ?E [png_file]) =
     Inl (HTTPException 500 (ustr ''Invalid JSON from Gemini: nope... Error: Expecting value''))"
    unfolding strip_fences_sample_answer j by (simp add: ustr_def)
  with h1 h2 p q strip_fences_sample_answer show ?thesis by blast
qed

text \<open>
  Claim C6. When the files before the file \<open>f\<close> are extracted and the extraction of
  \<open>f\<close>, a file with the filename \<open>name\<close>, raises, the request fails with a 500 error
  whose detail is \<open>Error processing file\<close>, then \<open>name\<close>, a colon and the message
  of the exception; outcome and calls are those of the request that ends with \<open>f\<close>,
  so nothing is done for the files behind it.
\<close>

theorem extraction_failure_names_file:
  assumes "process_files E pre [] 1 [] = (Inr (t, n), log)"
    and "content_type f \<in> set allowed_types"
    and "filename f = Some name"
    and "extract_file E f (t @ start_banner n) log = (Inl e, log')"
  shows "process_images E (pre @ f # post) =
           (Inl (HTTPException 500
                  (ustr ''Error processing file '' @ name @ ustr '': '' @ e)), log') \<and>
         process_images E (pre @ f # post) = process_images E (pre @ [f])"
  using assms by (simp add: process_images_def process_files_append fmt_def)

theorem extraction_failure_names_file_witness:
  "process_files (sample_env (ustr ''Rice 50'') (ustr ''[1]'')) [png_file] [] 1 [] =
     (Inr (start_banner 1 @ ustr ''Rice 50Rice 50'' @ [10] @ end_banner 1, 2),
      [ImageOpen [137, 80], ImageToString custom_config (), ImageToString config2 (),
       ImageToString config3 ()]) \<and>
   content_type broken_png_file \<in> set allowed_types \<and>
   filename broken_png_file = Some (ustr ''b.png'') \<and>
   extract_file (sample_env (ustr ''Rice 50'') (ustr ''[1]'')) broken_png_file
     ((start_banner 1 @ ustr ''Rice 50Rice 50'' @ [10] @ end_banner 1) @ start_banner 2)
     [ImageOpen [137, 80], ImageToString custom_config (), ImageToString config2 (),
      ImageToString config3 ()] =
     (Inl (ustr ''cannot identify image file''),
      [ImageOpen [137, 80], ImageToString custom_config (), ImageToString config2 (),
       ImageToString config3 ()] @ [ImageOpen []]) \<and>
   process_images (sample_env (ustr ''Rice 50'') (ustr ''[1]''))
     ([png_file] @ broken_png_file # [png_file]) =
     (Inl (HTTPException 500
            (ustr ''Error processing file b.png: cannot identify image file'')),
      [ImageOpen [137, 80], ImageToString custom_config (), ImageToString config2 (),
       ImageToString config3 (), ImageOpen []]) \<and>
   process_images (sample_env (ustr ''Rice 50'') (ustr ''[1]''))
     ([png_file] @ broken_png_file # [png_file]) =
   process_images (sample_env (ustr ''Rice 50'') (ustr ''[1]'')) ([png_file] @ [broken_png_file])"
proof -
  note h1 = sample_env_one_png [of "ustr ''[1]''"]
  note h2 = broken_png_allowed
  have h3: "filename broken_png_file = Some (ustr ''b.png'')" by (simp add: broken_png_file_def)
  note h4 = sample_env_broken_png [of "ustr ''Rice 50''" "ustr ''[1]''"
      "(start_banner 1 @ ustr ''Rice 50Rice 50'' @ [10] @ end_banner 1) @ start_banner 2"
      "[ImageOpen [137, 80], ImageToString custom_config (), ImageToString config2 (),
       ImageToString config3 ()]"]
  from extraction_failure_names_file [OF h1 h2 h3 h4, of "[png_file]"]
  have c: "process_images (sample_env (ustr ''Rice 50'') (ustr ''[1]''))
     ([png_file] @ broken_png_file # [png_file]) =
     (Inl (HTTPException 500
            (ustr ''Error processing file '' @ ustr ''b.png'' @ ustr '': '' @
             ustr ''cannot identify image file'')),
      [ImageOpen [137, 80], ImageToString custom_config (), ImageToString config2 (),
       ImageToString config3 ()] @ [ImageOpen []])"
    and d: "process_images (sample_env (ustr ''Rice 50'') (ustr ''[1]''))
     ([png_file] @ broken_png_file # [png_file]) =
      process_images (sample_env (ustr ''Rice 50'') (ustr ''[1]'')) ([png_file] @ [broken_png_file])"
    by blast+
  have s: "ustr ''Error processing file '' @ ustr ''b.png'' @ ustr '': '' @
             ustr ''cannot identify image file'' =
           ustr ''Error processing file b.png: cannot identify image file''"
    by (simp add: ustr_def)
  from c have c': "process_images (sample_env (ustr ''Rice 50'') (ustr ''[1]''))
     ([png_file] @ broken_png_file # [png_file]) =
     (Inl (HTTPException 500
            (ustr ''Error processing file b.png: cannot identify image file'')),
      [ImageOpen [137, 80], ImageToString custom_config (), ImageToString config2 (),
       ImageToString config3 (), ImageOpen []])"
    unfolding s by simp
  from h1 h2 h3 h4 c' d show ?thesis by (intro conjI)
qed

text \<open>
  Claim C7. For a JPEG or PNG file whose extraction does not raise, the calls made are
  exactly these: the decoder once, then OCR three times on the decoded image, under
  three configurations that differ from each other. The text added to the gathered
  text (followed by a newline) is one of the three OCR outputs and at least as long as
  each of them.
\<close>

theorem image_ocr_three_passes:
  assumes "content_type file = Some (ustr ''image/jpeg'') \<or> content_type file = Some (ustr ''image/png'')"
    and "extract_file E file all_text log = (Inr all_text', log')"
  shows "\<exists>img text1 text2 text3 text.
           image_open E (contents file) = Inr img \<and>
           image_to_string E custom_config img = Inr text1 \<and>
           image_to_string E config2 img = Inr text2 \<and>
           image_to_string E config3 img = Inr text3 \<and>
           log' = log @ [ImageOpen (contents file), ImageToString custom_config img,
                         ImageToString config2 img, ImageToString config3 img] \<and>
           all_text' = all_text @ text @ [10] \<and>
           text \<in> set [text1, text2, text3] \<and>
           length text1 \<le> length text \<and> length text2 \<le> length text \<and>
           length text3 \<le> length text \<and>
           distinct [custom_config, config2, config3]"
proof -
  from assms(1) have np: "content_type file \<noteq> Some (ustr ''application/pdf'')"
    by (auto simp: ustr_def)
  from assms(2) np obtain img where o: "image_open E (contents file) = Inr img"
    by (cases "image_open E (contents file)") (auto simp: extract_file_def)
  from assms(2) np o obtain text1 where
    t1: "image_to_string E custom_config img = Inr text1"
    by (cases "image_to_string E custom_config img") (auto simp: extract_file_def)
  from assms(2) np o t1 obtain text2 where
    t2: "image_to_string E config2 img = Inr text2"
    by (cases "image_to_string E config2 img") (auto simp: extract_file_def)
  from assms(2) np o t1 t2 obtain text3 where
    t3: "image_to_string E config3 img = Inr text3"
    by (cases "image_to_string E config3 img") (auto simp: extract_file_def)
  from assms(2) np o t1 t2 t3
  have "log' = log @ [ImageOpen (contents file), ImageToString custom_config img,
                      ImageToString config2 img, ImageToString config3 img]"
    and "all_text' = all_text @ max_by_len text1 [text2, text3] @ [10]"
    by (auto simp: extract_file_def)
  with o t1 t2 t3 max_by_len_3 [of text1 text2 text3] configs_distinct
  show ?thesis by blast
qed

theorem image_ocr_three_passes_witness:
  "(content_type png_file = Some (ustr ''image/jpeg'') \<or>
    content_type png_file = Some (ustr ''image/png'')) \<and>
   extract_file (sample_env (ustr ''Rice 50'') []) png_file [] [] =
     (Inr ([] @ ustr ''Rice 50Rice 50'' @ [10]),
      [] @ [ImageOpen [137, 80], ImageToString custom_config (), ImageToString config2 (),
            ImageToString config3 ()]) \<and>
   (\<exists>img text1 text2 text3 text.
      image_open (sample_env (ustr ''Rice 50'') []) (contents png_file) = Inr img \<and>
      image_to_string (sample_env (ustr ''Rice 50'') []) custom_config img = Inr text1 \<and>
      image_to_string (sample_env (ustr ''Rice 50'') []) config2 img = Inr text2 \<and>
      image_to_string (sample_env (ustr ''Rice 50'') []) config3 img = Inr text3 \<and>
      [] @ [ImageOpen [137, 80], ImageToString custom_config (), ImageToString config2 (),
            ImageToString config3 ()] =
        [] @ [ImageOpen (contents png_file), ImageToString custom_config img,
              ImageToString config2 img, ImageToString config3 img] \<and>
      [] @ ustr ''Rice 50Rice 50'' @ [10] = [] @ text @ [10] \<and>
      text \<in> set [text1, text2, text3] \<and>
      length text1 \<le> length text \<and> length text2 \<le> length text \<and>
      length text3 \<le> length text \<and>
      distinct [custom_config, config2, config3])"
proof -
  have h1: "content_type png_file = Some (ustr ''image/jpeg'') \<or>
    content_type png_file = Some (ustr ''image/png'')"
    by (simp add: png_file_def)
  note h2 = sample_env_png [of "[]" "[]" "[]"]
  from image_ocr_three_passes [OF h1 h2] h1 h2 show ?thesis by blast
qed

text \<open>
  Claim C9. A request succeeds with \<open>{"data": v}\<close> exactly when the loop over the
  files ends without an error, the model answers, and the JSON parser returns \<open>v\<close> on
  the answer without its fences. The value \<open>v\<close> is of an arbitrary type: the handler
  cannot inspect it, and hands on whatever the parser returned.
\<close>

theorem parsed_value_returned:
  "process_images E files = (Inr (Data v), log) \<longleftrightarrow>
     (\<exists>all_text n log0 text.
        files \<noteq> [] \<and>
        process_files E files [] 1 [] = (Inr (all_text, n), log0) \<and>
        generate_content E (build_prompt (clean_str (isdigit E) all_text)) = Inr text \<and>
        json_loads E (strip_fences text) = Inr v \<and>
        log = log0 @ [GenerateContent (build_prompt (clean_str (isdigit E) all_text))])"
proof
  assume a: "process_images E files = (Inr (Data v), log)"
  then have ne: "files \<noteq> []" by (auto simp: process_images_def)
  obtain r log0 where pf: "process_files E files [] 1 [] = (r, log0)"
    by (cases "process_files E files [] 1 []")
  from a ne pf obtain all_text n where r: "r = Inr (all_text, n)"
    by (cases r) (auto simp: process_images_def)
  with pf have ok: "process_files E files [] 1 [] = (Inr (all_text, n), log0)" by simp
  from a have "ask_model E (build_prompt (clean_str (isdigit E) all_text)) log0 = (Inr (Data v), log)"
    unfolding process_images_ok [OF ne ok] .
  then obtain reply where
    "generate_content E (build_prompt (clean_str (isdigit E) all_text)) = Inr reply"
    "json_loads E (strip_fences reply) = Inr v"
    "log = log0 @ [GenerateContent (build_prompt (clean_str (isdigit E) all_text))]"
    by (auto simp: ask_model_def Let_def split: sum.splits json_error.splits)
  with ne ok show "\<exists>all_text n log0 text.
        files \<noteq> [] \<and>
        process_files E files [] 1 [] = (Inr (all_text, n), log0) \<and>
        generate_content E (build_prompt (clean_str (isdigit E) all_text)) = Inr text \<and>
        json_loads E (strip_fences text) = Inr v \<and>
        log = log0 @ [GenerateContent (build_prompt (clean_str (isdigit E) all_text))]"
    by blast
next
  assume "\<exists>all_text n log0 text.
        files \<noteq> [] \<and>
        process_files E files [] 1 [] = (Inr (all_text, n), log0) \<and>
        generate_content E (build_prompt (clean_str (isdigit E) all_text)) = Inr text \<and>
        json_loads E (strip_fences text) = Inr v \<and>
        log = log0 @ [GenerateContent (build_prompt (clean_str (isdigit E) all_text))]"
  then obtain all_text n log0 reply where ne: "files \<noteq> []"
    and ok: "process_files E files [] 1 [] = (Inr (all_text, n), log0)"
    and g: "generate_content E (build_prompt (clean_str (isdigit E) all_text)) = Inr reply"
    and j: "json_loads E (strip_fences reply) = Inr v"
    and l: "log = log0 @ [GenerateContent (build_prompt (clean_str (isdigit E) all_text))]"
    by blast
  show "process_images E files = (Inr (Data v), log)"
    unfolding process_images_ok [OF ne ok] using g j l by (simp add: ask_model_def)
qed

theorem parsed_value_returned_witness:
  "process_images (sample_env (ustr ''Rice 50'') (ustr ''[1]'')) [png_file] =
     (Inr (Data 1),
      [ImageOpen [137, 80], ImageToString custom_config (), ImageToString config2 (),
       ImageToString config3 ()] @
      [GenerateContent (build_prompt (clean_str (isdigit (sample_env (ustr ''Rice 50'') (ustr ''[1]'')))
         (start_banner 1 @ ustr ''Rice 50Rice 50'' @ [10] @ end_banner 1)))])"
proof -
  let ?E = "sample_env (ustr ''Rice 50'') (ustr ''[1]'')"
  let ?t = "start_banner 1 @ ustr ''Rice 50Rice 50'' @ [10] @ end_banner 1"
  have h1: "[png_file] \<noteq> []" by simp
  note h2 = sample_env_one_png [of "ustr ''[1]''"]
  have h3: "generate_content ?E (build_prompt (clean_str (isdigit ?E) ?t)) = Inr (ustr ''[1]'')"
    by (simp add: sample_env_def)
  have h4: "json_loads ?E (strip_fences (ustr ''[1]'')) = Inr 1"
    by (simp add: sample_env_def strip_fences_def strip_def ustr_def isspace_def suffix_to_prefix)
  from h1 h2 h3 h4 show ?thesis
    unfolding parsed_value_returned by blast
qed

end
